theory Spec2Isabelle
  imports Complex_Main "HOL-Library.Word" "HOL-Library.Sublist"
begin

section \<open>JavaScript values and strings\<close>

text \<open>
  A JavaScript string is a sequence of UTF-16 code units; \<open>length\<close>, \<open>substring\<close>,
  \<open>split\<close> and the regular expressions of \<open>build.js\<close> (none has the \<open>u\<close> flag) all
  work on code units.  ASCII literals of the source are written \<open>js ''...''\<close>.
\<close>

type_synonym jschar = "16 word"
type_synonym jstring = "jschar list"

definition js :: "string \<Rightarrow> jstring" where
  "js s = map of_char s"

abbreviation LF :: jschar where "LF \<equiv> 0x0A"
abbreviation SPACE :: jschar where "SPACE \<equiv> 0x20"
abbreviation DQUOTE :: jschar where "DQUOTE \<equiv> 0x22"
abbreviation AMP :: jschar where "AMP \<equiv> 0x26"
abbreviation SQUOTE :: jschar where "SQUOTE \<equiv> 0x27"
abbreviation HYPHEN :: jschar where "HYPHEN \<equiv> 0x2D"
abbreviation LESS :: jschar where "LESS \<equiv> 0x3C"
abbreviation GREATER :: jschar where "GREATER \<equiv> 0x3E"
abbreviation EM_DASH :: jschar where "EM_DASH \<equiv> 0x2014"
abbreviation LSQUO :: jschar where "LSQUO \<equiv> 0x2018"
abbreviation RSQUO :: jschar where "RSQUO \<equiv> 0x2019"
abbreviation LDQUO :: jschar where "LDQUO \<equiv> 0x201C"
abbreviation RDQUO :: jschar where "RDQUO \<equiv> 0x201D"

text \<open>
  The values that reach the formatting functions: what \<open>xml2js\<close> produces (strings and
  plain objects of such values) and the other primitives.  There are no function
  values and no wrapper objects (\<open>new String\<close>), so among these values calling a
  property of a non-string is always a \<open>TypeError\<close>.  Of a number only its truthiness
  is observed.
\<close>

datatype jsnumber = NaN | PosInfinity | NegInfinity | Finite real

datatype jsvalue =
    JUndefined
  | JNull
  | JBoolean bool
  | JNumber jsnumber
  | JString jstring
  | JObject "(jstring \<times> jsvalue) list"

datatype error = TypeError

text \<open>\<open>ToBoolean\<close>: what \<open>!text\<close>, \<open>||\<close> and \<open>if (x)\<close> test.\<close>

fun truthy :: "jsvalue \<Rightarrow> bool" where
  "truthy JUndefined = False"
| "truthy JNull = False"
| "truthy (JBoolean b) = b"
| "truthy (JNumber NaN) = False"
| "truthy (JNumber (Finite r)) = (r \<noteq> 0)"
| "truthy (JNumber _) = True"
| "truthy (JString s) = (s \<noteq> [])"
| "truthy (JObject _) = True"

text \<open>
  The class \<open>\s\<close> of a regular expression, which is also what \<open>trim()\<close> removes
  (WhiteSpace and LineTerminator of ECMAScript).
\<close>

definition is_space :: "jschar \<Rightarrow> bool" where
  "is_space c \<longleftrightarrow>
     c \<in> {0x09, 0x0A, 0x0B, 0x0C, 0x0D, 0x20, 0xA0, 0x1680, 0x2028, 0x2029,
          0x202F, 0x205F, 0x3000, 0xFEFF}
     \<or> (0x2000 \<le> c \<and> c \<le> 0x200A)"

text \<open>\<open>\d\<close> is \<open>[0-9]\<close>.\<close>

definition is_digit :: "jschar \<Rightarrow> bool" where
  "is_digit c \<longleftrightarrow> 0x30 \<le> c \<and> c \<le> 0x39"

text \<open>\<open>.\<close> without the \<open>s\<close> flag matches everything but the four line terminators.\<close>

definition is_line_terminator :: "jschar \<Rightarrow> bool" where
  "is_line_terminator c \<longleftrightarrow> c \<in> {0x0A, 0x0D, 0x2028, 0x2029}"

definition trim :: "jstring \<Rightarrow> jstring" where
  "trim s = rev (dropWhile is_space (rev (dropWhile is_space s)))"

text \<open>\<open>s.split(sep)\<close> for a separator that matches exactly one code unit.\<close>

fun split_on :: "(jschar \<Rightarrow> bool) \<Rightarrow> jstring \<Rightarrow> jstring list" where
  "split_on P [] = [[]]"
| "split_on P (c # cs) =
     (if P c then [] # split_on P cs
      else (case split_on P cs of
              [] \<Rightarrow> [[c]]
            | piece # pieces \<Rightarrow> (c # piece) # pieces))"

text \<open>\<open>pieces.join(sep)\<close>.\<close>

fun join :: "jstring \<Rightarrow> jstring list \<Rightarrow> jstring" where
  "join sep [] = []"
| "join sep [x] = x"
| "join sep (x # y # ys) = x @ sep @ join sep (y # ys)"

text \<open>
  \<open>s.replace(/c/g, rep)\<close> for a single literal code unit \<open>c\<close>: every occurrence is
  replaced.
\<close>

definition replace_all_char :: "jschar \<Rightarrow> jstring \<Rightarrow> jstring \<Rightarrow> jstring" where
  "replace_all_char c rep s = concat (map (\<lambda>x. if x = c then rep else [x]) s)"

text \<open>
  \<open>s.replace(/pat/g, rep)\<close> for a literal pattern: the matches are found from left to
  right and do not overlap; the search resumes after each match.
\<close>

function replace_all :: "jstring \<Rightarrow> jstring \<Rightarrow> jstring \<Rightarrow> jstring" where
  "replace_all pat rep [] = []"
| "replace_all pat rep (c # cs) =
     (if pat \<noteq> [] \<and> prefix pat (c # cs)
      then rep @ replace_all pat rep (drop (length pat) (c # cs))
      else c # replace_all pat rep cs)"
  by pat_completeness auto
termination
  by (relation "measure (\<lambda>(pat, rep, s). length s)") auto

text \<open>
  \<open>s.replace(pat, rep)\<close> with a string pattern: only the first occurrence is replaced.
  (None of the replacement strings of \<open>build.js\<close> contains a \<open>$\<close>.)
\<close>

fun replace_first :: "jstring \<Rightarrow> jstring \<Rightarrow> jstring \<Rightarrow> jstring" where
  "replace_first pat rep [] = (if pat = [] then rep else [])"
| "replace_first pat rep (c # cs) =
     (if prefix pat (c # cs) then rep @ drop (length pat) (c # cs)
      else c # replace_first pat rep cs)"

section \<open>\<open>escapeHtml\<close>\<close>

definition escapeHtml_string :: "jstring \<Rightarrow> jstring" where
  "escapeHtml_string text =
     replace_all_char DQUOTE (js ''&quot;'')
       (replace_all_char GREATER (js ''&gt;'')
         (replace_all_char LESS (js ''&lt;'')
           (replace_all_char AMP (js ''&amp;'') text)))"

fun escapeHtml :: "jsvalue \<Rightarrow> jstring" where
  "escapeHtml (JString text) = escapeHtml_string text"
| "escapeHtml _ = []"

section \<open>\<open>smartTypography\<close>\<close>

text \<open>The class \<open>[\s(\[{]\<close> before an opening quote.\<close>

definition before_open :: "jschar \<Rightarrow> bool" where
  "before_open c \<longleftrightarrow> is_space c \<or> c \<in> {0x28, 0x5B, 0x7B}"

text \<open>The class \<open>[\s.,;:!?\)\]}]\<close> after a closing quote.\<close>

definition after_close :: "jschar \<Rightarrow> bool" where
  "after_close c \<longleftrightarrow> is_space c \<or> c \<in> {0x2E, 0x2C, 0x3B, 0x3A, 0x21, 0x3F, 0x29, 0x5D, 0x7D}"

text \<open>
  \<open>text.replace(/(^|[\s(\[{])q/g, '$1' + r)\<close>.  At index 0 the alternative \<open>^\<close> matches a
  leading quote; everywhere a code unit of the class followed by the quote is one
  match of two code units, and the search resumes after the quote.
\<close>

fun open_quotes_from :: "jschar \<Rightarrow> jschar \<Rightarrow> jstring \<Rightarrow> jstring" where
  "open_quotes_from q r (c # d # cs) =
     (if before_open c \<and> d = q then c # r # open_quotes_from q r cs
      else c # open_quotes_from q r (d # cs))"
| "open_quotes_from q r cs = cs"

definition open_quotes :: "jschar \<Rightarrow> jschar \<Rightarrow> jstring \<Rightarrow> jstring" where
  "open_quotes q r text =
     (case text of
        [] \<Rightarrow> []
      | c # cs \<Rightarrow> if c = q then r # open_quotes_from q r cs else open_quotes_from q r text)"

text \<open>
  \<open>text.replace(/"([\s.,;:!?\)\]}]|$)/g, '\\u201d$1')\<close>: a quote followed by a code unit
  of the class (which is part of the match) or standing at the end of the string.
\<close>

fun close_quotes :: "jstring \<Rightarrow> jstring" where
  "close_quotes [] = []"
| "close_quotes [c] = (if c = DQUOTE then [RDQUO] else [c])"
| "close_quotes (c # d # cs) =
     (if c = DQUOTE \<and> after_close d then RDQUO # d # close_quotes cs
      else c # close_quotes (d # cs))"

definition smartTypography_string :: "jstring \<Rightarrow> jstring" where
  "smartTypography_string text0 =
     (let text1 = replace_all (js '' -- '') [SPACE, EM_DASH, SPACE] text0;
          text2 = replace_all (js ''--'') [EM_DASH] text1;
          text3 = open_quotes DQUOTE LDQUO text2;
          text4 = close_quotes text3;
          text5 = replace_all_char DQUOTE [RDQUO] text4;
          text6 = open_quotes SQUOTE LSQUO text5;
          text7 = replace_all_char SQUOTE [RSQUO] text6
      in text7)"

fun smartTypography :: "jsvalue \<Rightarrow> jstring" where
  "smartTypography (JString text) = smartTypography_string text"
| "smartTypography _ = []"

section \<open>\<open>addFootnoteLinks\<close>\<close>

definition links :: "(jstring \<times> jstring) list" where
  "links =
     [(js ''Minor Mage'', js ''https://amzn.to/4bBWxD9''),
      ([LDQUO] @ js ''ideal city'' @ [RDQUO],
       js ''https://acoup.blog/2019/07/12/collections-the-lonely-city-part-i-the-ideal-city/'')]"

text \<open>The template literal of the replacement, for one entry of \<open>links\<close>.\<close>

definition anchor :: "jstring \<Rightarrow> jstring \<Rightarrow> jstring" where
  \<open>anchor url term =
     js ''<a href="'' @ url @ js ''" target="_blank" rel="noopener">'' @ term @ js ''</a>''\<close>

definition addFootnoteLinks :: "jstring \<Rightarrow> jstring" where
  "addFootnoteLinks text =
     foldl (\<lambda>text (term, url). replace_first term (anchor url term) text) text links"

section \<open>\<open>formatCaption\<close>\<close>

text \<open>
  The common part \<open>\[FN\s*(\d+)\]\<close> of the footnote patterns, tried at the head of a
  string: the digits and what follows the closing bracket.  \<open>\s*\<close> and \<open>\d+\<close> are
  greedy, and giving back a code unit never helps, since no whitespace is a digit and
  no digit is a bracket.
\<close>

definition match_marker :: "jstring \<Rightarrow> (jstring \<times> jstring) option" where
  "match_marker s =
     (if prefix (js ''[FN'') s then
        (let s1 = dropWhile is_space (drop 3 s);
             num = takeWhile is_digit s1;
             s2 = dropWhile is_digit s1
         in (case s2 of
               [] \<Rightarrow> None
             | c # rest \<Rightarrow> if num \<noteq> [] \<and> c = 0x5D then Some (num, rest) else None))
      else None)"

text \<open>
  \<open>line.match(/^\[FN\s*(\d+)\]\s*(.+)$/)\<close>: groups 1 and 2.  After the bracket,
  \<open>\s*\<close> takes the whitespace and \<open>.+\<close> must reach the end of the line without meeting
  a line terminator; when only whitespace follows the bracket, \<open>\s*\<close> gives back its
  last code unit to \<open>.+\<close>.
\<close>

definition fnMatch :: "jstring \<Rightarrow> (jstring \<times> jstring) option" where
  "fnMatch line =
     (case match_marker line of
        None \<Rightarrow> None
      | Some (num, rest) \<Rightarrow>
          (let body = dropWhile is_space rest in
           if body \<noteq> [] then
             (if list_ex is_line_terminator body then None else Some (num, body))
           else if rest \<noteq> [] \<and> \<not> is_line_terminator (last rest) then Some (num, [last rest])
           else None))"

text \<open>
  The object \<open>footnotes\<close>: its properties in creation order.  An assignment to an
  existing key keeps the key's place.
\<close>

type_synonym jsobject = "(jstring \<times> jstring) list"

fun obj_set :: "jsobject \<Rightarrow> jstring \<Rightarrow> jstring \<Rightarrow> jsobject" where
  "obj_set [] k v = [(k, v)]"
| "obj_set ((k', v') # ps) k v =
     (if k' = k then (k, v) # ps else (k', v') # obj_set ps k v)"

definition digits_value :: "jstring \<Rightarrow> int" where
  "digits_value k = foldl (\<lambda>n c. 10 * n + (uint c - 48)) 0 k"

text \<open>
  An array index is a canonical numeric string (no leading zero) below \<open>2^32 - 1\<close>.
\<close>

definition is_array_index :: "jstring \<Rightarrow> bool" where
  "is_array_index k \<longleftrightarrow>
     k \<noteq> [] \<and> list_all is_digit k \<and> (k = [0x30] \<or> hd k \<noteq> 0x30)
     \<and> digits_value k < 4294967295"

text \<open>
  \<open>Object.keys(obj)\<close> (OrdinaryOwnPropertyKeys): first the array indices in ascending
  numeric order, then the other string keys in creation order.
\<close>

definition object_keys :: "jsobject \<Rightarrow> jstring list" where
  "object_keys obj =
     (let ks = map fst obj
      in sort_key digits_value (filter is_array_index ks)
         @ filter (\<lambda>k. \<not> is_array_index k) ks)"

text \<open>\<open>Object.keys(obj).pop()\<close>: \<open>None\<close> is \<open>undefined\<close>.\<close>

definition last_key :: "jsobject \<Rightarrow> jstring option" where
  "last_key obj = (case object_keys obj of [] \<Rightarrow> None | k # ks \<Rightarrow> Some (last (k # ks)))"

text \<open>\<open>obj[k]\<close> as the left operand of \<open>+\<close>.\<close>

definition obj_get_text :: "jsobject \<Rightarrow> jstring \<Rightarrow> jstring" where
  "obj_get_text obj k = (case map_of obj k of Some v \<Rightarrow> v | None \<Rightarrow> js ''undefined'')"

record extract_state =
  footnotes :: jsobject
  mainText :: "jstring list"
  inFootnotes :: bool

text \<open>The body of the loop over the lines.\<close>

definition step_line :: "extract_state \<Rightarrow> jstring \<Rightarrow> extract_state" where
  "step_line st line =
     (case fnMatch line of
        Some (num, txt) \<Rightarrow>
          st\<lparr>inFootnotes := True, footnotes := obj_set (footnotes st) num (trim txt)\<rparr>
      | None \<Rightarrow>
          if inFootnotes st \<and> trim line \<noteq> [] \<and> \<not> prefix (js ''[FN'') line then
            (case last_key (footnotes st) of
               None \<Rightarrow> st
             | Some lastKey \<Rightarrow>
                 if lastKey \<noteq> [] then
                   st\<lparr>footnotes := obj_set (footnotes st) lastKey
                        (obj_get_text (footnotes st) lastKey @ [SPACE] @ trim line)\<rparr>
                 else st)
          else if \<not> inFootnotes st then st\<lparr>mainText := mainText st @ [line]\<rparr>
          else st)"

definition initial_state :: extract_state where
  "initial_state = \<lparr>footnotes = [], mainText = [], inFootnotes = False\<rparr>"

definition extract_footnotes :: "jstring \<Rightarrow> extract_state" where
  "extract_footnotes text = foldl step_line initial_state (split_on (\<lambda>c. c = LF) text)"

text \<open>
  \<open>s.replace(/\[FN\s*(\d+)\]/g, f)\<close>: every marker, from left to right, is replaced by
  \<open>f\<close> of its digits.
\<close>

function replace_markers :: "(jstring \<Rightarrow> jstring) \<Rightarrow> jstring \<Rightarrow> jstring" where
  "replace_markers f [] = []"
| "replace_markers f (c # cs) =
     (case match_marker (c # cs) of
        Some (num, rest) \<Rightarrow> f num @ replace_markers f rest
      | None \<Rightarrow> c # replace_markers f cs)"
  by pat_completeness auto
termination
proof (relation "measure (\<lambda>(f, s). length s)")
  fix f :: "jstring \<Rightarrow> jstring" and c :: jschar and cs num rest :: jstring
    and x2 :: "jstring \<times> jstring"
  assume m: "match_marker (c # cs) = Some x2" and x2: "(num, rest) = x2"
  have "length (dropWhile Q (dropWhile P (drop n xs))) \<le> length xs"
    for P Q n and xs :: jstring
    by (metis le_trans length_dropWhile_le length_drop diff_le_self)
  then have le: "length r < length xs" if "dropWhile Q (dropWhile P (drop n xs)) = d # r"
    for P Q d r n and xs :: jstring
    by (metis that length_Cons Suc_le_eq)
  from m x2 have "length rest < length (c # cs)"
    unfolding match_marker_def Let_def
    by (auto split: if_splits list.splits dest: le less_SucI)
  then show "((f, rest), (f, c # cs)) \<in> measure (\<lambda>(f, s). length s)"
    by simp
qed auto

text \<open>The callback of the replacement of the inline markers.\<close>

definition render_marker :: "jsobject \<Rightarrow> jstring \<Rightarrow> jstring" where
  \<open>render_marker fs num =
     (let footnoteText0 =
            (case map_of fs num of
               None \<Rightarrow> []
             | Some d \<Rightarrow>
                 if d \<noteq> [] then escapeHtml (JString (smartTypography (JString d))) else []);
          footnoteText = addFootnoteLinks footnoteText0
      in if footnoteText \<noteq> [] then
           js ''<span class="footnote-ref" tabindex="0"><sup>'' @ num
           @ js ''</sup><span class="footnote-tooltip">'' @ footnoteText
           @ js ''</span></span>''
         else js ''<sup class="footnote-ref">'' @ num @ js ''</sup>'')\<close>

text \<open>
  \<open>formatCaption\<close>.  A falsy \<open>text\<close> returns the empty string; on any other value of
  \<open>jsvalue\<close> that is not a string, \<open>text.split\<close> is not a function.
\<close>

definition formatCaption_string :: "jstring \<Rightarrow> jstring" where
  "formatCaption_string text =
     (let st = extract_footnotes text;
          formatted0 = escapeHtml (JString (smartTypography (JString (join [LF] (mainText st)))));
          formatted1 = replace_markers (render_marker (footnotes st)) formatted0
      in replace_all_char LF (js ''<br>'') formatted1)"

definition formatCaption :: "jsvalue \<Rightarrow> error + jstring" where
  "formatCaption text =
     (if \<not> truthy text then Inr []
      else (case text of
              JString t \<Rightarrow> Inr (formatCaption_string t)
            | _ \<Rightarrow> Inl TypeError))"

section \<open>\<open>getPreview\<close>\<close>

text \<open>The class \<open>[.!?]\<close>.\<close>

definition is_terminator :: "jschar \<Rightarrow> bool" where
  "is_terminator c \<longleftrightarrow> c \<in> {0x2E, 0x21, 0x3F}"

text \<open>\<open>s.substring(0, n)\<close>.\<close>

definition substring0 :: "nat \<Rightarrow> jstring \<Rightarrow> jstring" where
  "substring0 n s = take (min n (length s)) s"

definition getPreview_string :: "jstring \<Rightarrow> error + jstring" where
  "getPreview_string text =
     (let plain = trim (replace_markers (\<lambda>num. []) text)
      in (case split_on is_terminator plain of
            [] \<Rightarrow> Inl TypeError
          | firstSentence # others \<Rightarrow>
              if length firstSentence > 120 then
                Inr (escapeHtml (JString (smartTypography
                      (JString (substring0 117 firstSentence @ js ''...'')))))
              else
                Inr (escapeHtml (JString (smartTypography
                      (JString (firstSentence
                         @ (if length plain > length firstSentence then js ''...'' else []))))))))"

definition getPreview :: "jsvalue \<Rightarrow> error + jstring" where
  "getPreview text =
     (if \<not> truthy text then Inr []
      else (case text of
              JString t \<Rightarrow> getPreview_string t
            | _ \<Rightarrow> Inl TypeError))"

section \<open>Entry assembly\<close>

text \<open>The hard-coded entries that precede those of the feed.\<close>

record manual_entry =
  m_imageUrl :: jstring
  m_title :: jstring
  m_postUrl :: jstring

definition MANUAL_ENTRIES :: "manual_entry list" where
  "MANUAL_ENTRIES =
     [\<lparr>m_imageUrl =
         js ''https://pxscdn.com/public/m/_v2/372424658891954694/c19ce1b25-2f8843/fJKRz3VJEKXn/ibb5DAEsB7mv3x4ghcRfEdvd7H07alMNniL1Honj.png'',
       m_title =
         js ''Behemoths live primarily among the stars, but like frogs and water, their young need soil to gestate and grow. Humankind discovered the behemoth when a seed slammed to ground and destroyed a sacred grove back on our home planet. After a war or two, our two species entered into symbiosis with one another. Humans protected the seeds, learned to commune with the juvenile, and joined the youngling in the stars. For thousands of years, we have journeyed from star to star with the behemoth spawn they have succored, and in the process, colonized unknowable planets.''
       @ [LF]
       @ [LF]
       @ js ''My great, great, great grandmother bred dogs in the belly of such a beast. I'' @ [SQUOTE] @ js ''ll never see one.'',
       m_postUrl =
         js ''https://pixelfed.social/p/eleanorkonik/910743161584559284''\<rparr>,
      \<lparr>m_imageUrl =
         js ''https://pxscdn.com/public/m/_v2/372424658891954694/c19ce1b25-2f8843/BskuLA20NGMl/baIgpROKkn0iAeBKRxIHJGQVcINDGTImV2WOE2kG.png'',
       m_title =
         js ''When a Behemoth launches itself into the stars, it takes with it a breeding population of humans, which live inside the belly of the beast, getting all their nutrients and air from inside the cavern, until it finds a mate. Then, the male Behemoth carves a nest in the soil while the female feeds on the nearby star. She plants the seed, the male fertilizes it, and each disgorges a portion of their human population to serve as caretakers for the seed, leaving them free to roam the stars once more.''
       @ [LF]
       @ [LF]
       @ js ''Then, the humans spend long years scouting, and building, and negotiating a new hierarchy and social order. Often, there are external threats that need to be dealt with -- just the thing for forging a united population.''
       @ [LF]
       @ [LF]
       @ js ''On the tallest mountain on the planet known as Pieran, there stands a small observation tower built of wood, and from it, one can see...'',
       m_postUrl =
         js ''https://pixelfed.social/p/eleanorkonik/910738205739311234''\<rparr>]"

text \<open>
  Property reads on the parsed feed.  \<open>x?.p\<close> is \<open>undefined\<close> on \<open>undefined\<close> and
  \<open>null\<close>; the names read by \<open>build.js\<close> (\<open>media_content\<close>, \<open>$\<close>, \<open>url\<close>, \<open>link\<close>,
  \<open>href\<close>, \<open>title\<close>, \<open>_\<close>, \<open>$t\<close>, \<open>content\<close>) are no properties of a primitive value.
\<close>

fun get_opt :: "jsvalue \<Rightarrow> jstring \<Rightarrow> jsvalue" where
  "get_opt (JObject props) p = (case map_of props p of Some v \<Rightarrow> v | None \<Rightarrow> JUndefined)"
| "get_opt _ p = JUndefined"

text \<open>\<open>x.p\<close> raises on \<open>undefined\<close> and \<open>null\<close>.\<close>

fun get_prop :: "jsvalue \<Rightarrow> jstring \<Rightarrow> error + jsvalue" where
  "get_prop JUndefined p = Inl TypeError"
| "get_prop JNull p = Inl TypeError"
| "get_prop v p = Inr (get_opt v p)"

text \<open>\<open>a || b\<close>.\<close>

definition js_or :: "jsvalue \<Rightarrow> jsvalue \<Rightarrow> jsvalue" where
  "js_or a b = (if truthy a then a else b)"

definition extractText :: "jsvalue \<Rightarrow> jsvalue" where
  "extractText node =
     (if \<not> truthy node then JString []
      else (case node of
              JString s \<Rightarrow> node
            | _ \<Rightarrow>
               (case get_opt node (js ''_'') of
                  JString s \<Rightarrow> JString s
                | _ \<Rightarrow>
                   (case node of
                      JObject props \<Rightarrow>
                        if truthy (get_opt node (js ''$t'')) then get_opt node (js ''$t'')
                        else if truthy (get_opt node (js ''content'')) then get_opt node (js ''content'')
                        else JString []
                    | _ \<Rightarrow> JString []))))"

text \<open>\<open>TEXT_REPLACEMENTS\<close>: each pattern is a literal anchored at the start.\<close>

definition TEXT_REPLACEMENTS :: "(jstring \<times> jstring) list" where
  "TEXT_REPLACEMENTS = [(js ''Dogs --'', js ''...dogs --'')]"

definition replace_prefix :: "jstring \<Rightarrow> jstring \<Rightarrow> jstring \<Rightarrow> jstring" where
  "replace_prefix from to text = (if prefix from text then to @ drop (length from) text else text)"

text \<open>On a value that is not a string, \<open>text.replace\<close> is not a function.\<close>

definition applyTextReplacements :: "jsvalue \<Rightarrow> error + jsvalue" where
  "applyTextReplacements text =
     (case text of
        JString t \<Rightarrow>
          Inr (JString (foldl (\<lambda>t (from, to). replace_prefix from to t) t TEXT_REPLACEMENTS))
      | _ \<Rightarrow> Inl TypeError)"

text \<open>
  The two pieces of markup pushed by \<open>addEntry\<close>, as the values that fill the holes of
  their template literals.
\<close>

record grid_item =
  grid_index :: nat
  grid_src :: jstring
  hover_caption :: jstring

record slide =
  slide_index :: nat
  post_url :: jstring
  slide_src :: jstring
  caption_text :: jstring

record build_state =
  gridItems :: "grid_item list"
  lightboxSlides :: "slide list"
  currentIndex :: nat

definition addEntry ::
  "jsvalue \<Rightarrow> jsvalue \<Rightarrow> jsvalue \<Rightarrow> nat \<Rightarrow> build_state \<Rightarrow> error + build_state" where
  "addEntry imageUrl title postLink index st =
     (case getPreview title of
        Inl e \<Rightarrow> Inl e
      | Inr preview \<Rightarrow>
         (case formatCaption title of
            Inl e \<Rightarrow> Inl e
          | Inr formattedCaption \<Rightarrow>
              Inr (st\<lparr>gridItems := gridItems st @
                        [\<lparr>grid_index = index, grid_src = escapeHtml imageUrl,
                          hover_caption = preview\<rparr>],
                      lightboxSlides := lightboxSlides st @
                        [\<lparr>slide_index = index, post_url = escapeHtml postLink,
                          slide_src = escapeHtml imageUrl,
                          caption_text = formattedCaption\<rparr>]\<rparr>)))"

fun add_manual_entries :: "manual_entry list \<Rightarrow> build_state \<Rightarrow> error + build_state" where
  "add_manual_entries [] st = Inr st"
| "add_manual_entries (entry # entries) st =
     (case addEntry (JString (m_imageUrl entry)) (JString (m_title entry))
             (JString (m_postUrl entry)) (currentIndex st) st of
        Inl e \<Rightarrow> Inl e
      | Inr st' \<Rightarrow> add_manual_entries entries (st'\<lparr>currentIndex := currentIndex st' + 1\<rparr>))"

text \<open>
  The first statements of the loop over the feed entries: \<open>imageUrl\<close>, \<open>title\<close> and
  \<open>postUrl\<close> of an entry.
\<close>

definition read_entry :: "jsvalue \<Rightarrow> error + (jsvalue \<times> jsvalue \<times> jsvalue)" where
  "read_entry entry =
     (case get_prop entry (js ''media_content'') of
        Inl e \<Rightarrow> Inl e
      | Inr media_content \<Rightarrow>
          (let imageUrl = js_or (get_opt (get_opt media_content (js ''$'')) (js ''url''))
                            (JString []);
               link = get_opt entry (js ''link'');
               postUrl = js_or (get_opt (get_opt link (js ''$'')) (js ''href'')) (JString [])
           in (case applyTextReplacements (extractText (get_opt entry (js ''title''))) of
                 Inl e \<Rightarrow> Inl e
               | Inr title \<Rightarrow> Inr (imageUrl, title, postUrl))))"

fun add_feed_entries :: "jsvalue list \<Rightarrow> build_state \<Rightarrow> error + build_state" where
  "add_feed_entries [] st = Inr st"
| "add_feed_entries (entry # entries) st =
     (case read_entry entry of
        Inl e \<Rightarrow> Inl e
      | Inr (imageUrl, title, postUrl) \<Rightarrow>
          if truthy imageUrl then
            (case addEntry imageUrl title postUrl (currentIndex st) st of
               Inl e \<Rightarrow> Inl e
             | Inr st' \<Rightarrow> add_feed_entries entries (st'\<lparr>currentIndex := currentIndex st' + 1\<rparr>))
          else add_feed_entries entries st)"

text \<open>
  The part of \<open>build\<close> between the parsing of the feed and the page template:
  \<open>entries.reverse()\<close>, the manual entries, then the feed entries.
\<close>

definition build_entries :: "jsvalue list \<Rightarrow> error + build_state" where
  "build_entries entries =
     (case add_manual_entries MANUAL_ENTRIES
             \<lparr>gridItems = [], lightboxSlides = [], currentIndex = 0\<rparr> of
        Inl e \<Rightarrow> Inl e
      | Inr st \<Rightarrow> add_feed_entries (rev entries) st)"

section \<open>Predicates of the statements\<close>

text \<open>\<open>typeof v === 'string'\<close>.\<close>

fun is_string :: "jsvalue \<Rightarrow> bool" where
  "is_string (JString s) = True"
| "is_string _ = False"

text \<open>The string contains two hyphens in a row.\<close>

fun adjacent_hyphens :: "jstring \<Rightarrow> bool" where
  "adjacent_hyphens (c # d # cs) \<longleftrightarrow> (c = HYPHEN \<and> d = HYPHEN) \<or> adjacent_hyphens (d # cs)"
| "adjacent_hyphens cs \<longleftrightarrow> False"

text \<open>The marker \<open>[FN<n>]\<close> with the code units \<open>w\<close> between \<open>FN\<close> and the digits.\<close>

definition marker_token :: "jstring \<Rightarrow> jstring \<Rightarrow> jstring" where
  "marker_token w n = js ''[FN'' @ w @ n @ js '']''"

text \<open>The phrase of a rule of \<open>links\<close> and the anchor that the rule puts in its place.\<close>

definition link_term :: "nat \<Rightarrow> jstring" where
  "link_term i = fst (links ! i)"

definition link_anchor :: "nat \<Rightarrow> jstring" where
  "link_anchor i = anchor (snd (links ! i)) (fst (links ! i))"

text \<open>
  The image URL, caption and post URL handed to \<open>addEntry\<close> for a manual entry, and
  what it means for the two pieces of markup at one position to describe an entry
  under a display index.
\<close>

definition manual_fields :: "manual_entry \<Rightarrow> jsvalue \<times> jsvalue \<times> jsvalue" where
  "manual_fields entry =
     (JString (m_imageUrl entry), JString (m_title entry), JString (m_postUrl entry))"

definition describes :: "nat \<times> jsvalue \<times> jsvalue \<times> jsvalue \<Rightarrow> grid_item \<times> slide \<Rightarrow> bool" where
  "describes indexed markup =
     (case indexed of (index, imageUrl, title, postUrl) \<Rightarrow>
      case markup of (item, sl) \<Rightarrow>
        grid_index item = index \<and> slide_index sl = index
        \<and> grid_src item = escapeHtml imageUrl \<and> slide_src sl = escapeHtml imageUrl
        \<and> post_url sl = escapeHtml postUrl
        \<and> getPreview title = Inr (hover_caption item)
        \<and> formatCaption title = Inr (caption_text sl))"

text \<open>
  The two output sequences have one position per kept entry, in order, and position
  \<open>i\<close> of each describes the \<open>i\<close>-th kept entry under the index \<open>i\<close>.
\<close>

definition index_aligned :: "(jsvalue \<times> jsvalue \<times> jsvalue) list \<Rightarrow> build_state \<Rightarrow> bool" where
  "index_aligned kept st \<longleftrightarrow>
     currentIndex st = length kept
     \<and> length (gridItems st) = length (lightboxSlides st)
     \<and> list_all2 describes (zip [0..<length kept] kept)
          (zip (gridItems st) (lightboxSlides st))"

section \<open>Replacements that find nothing to replace\<close>

lemma replace_all_char_absent: "c \<notin> set s \<Longrightarrow> replace_all_char c rep s = s"
  by (induction s) (auto simp: replace_all_char_def)

lemma open_quotes_from_absent: "q \<notin> set s \<Longrightarrow> open_quotes_from q r s = s"
  by (induction q r s rule: open_quotes_from.induct) auto

lemma open_quotes_absent: "q \<notin> set s \<Longrightarrow> open_quotes q r s = s"
  by (cases s) (auto simp: open_quotes_def open_quotes_from_absent)

lemma close_quotes_absent: "DQUOTE \<notin> set s \<Longrightarrow> close_quotes s = s"
  by (induction s rule: close_quotes.induct) auto

lemma replace_all_dashes_absent:
  "\<not> adjacent_hyphens s \<Longrightarrow> replace_all (js ''--'') rep s = s"
  by (induction s rule: adjacent_hyphens.induct) (auto simp: js_def)

lemma replace_all_spaced_dashes_absent:
  "\<not> adjacent_hyphens s \<Longrightarrow> replace_all (js '' -- '') rep s = s"
proof (induction s rule: adjacent_hyphens.induct)
  case (1 c d cs)
  then show ?case by (cases cs) (auto simp: js_def)
qed (auto simp: js_def)

lemma no_hyphen_no_pair: "HYPHEN \<notin> set s \<Longrightarrow> \<not> adjacent_hyphens s"
  by (induction s rule: adjacent_hyphens.induct) auto

lemma smartTypography_plain:
  "\<not> adjacent_hyphens s \<Longrightarrow> DQUOTE \<notin> set s \<Longrightarrow> SQUOTE \<notin> set s \<Longrightarrow>
   smartTypography_string s = s"
  by (simp add: smartTypography_string_def replace_all_dashes_absent
      replace_all_spaced_dashes_absent open_quotes_absent close_quotes_absent
      replace_all_char_absent)

lemma escapeHtml_plain:
  "AMP \<notin> set s \<Longrightarrow> LESS \<notin> set s \<Longrightarrow> GREATER \<notin> set s \<Longrightarrow> DQUOTE \<notin> set s \<Longrightarrow>
   escapeHtml_string s = s"
  by (simp add: escapeHtml_string_def replace_all_char_absent)

section \<open>Blank lines\<close>

lemma dropWhile_all: "(\<forall>c \<in> set s. P c) \<Longrightarrow> dropWhile P s = []"
  by (induction s) auto

lemma dropWhile_Nil_all: "dropWhile P s = [] \<Longrightarrow> (\<forall>c \<in> set s. P c)"
  by (induction s) (auto split: if_splits)

lemma trim_empty_iff: "trim s = [] \<longleftrightarrow> (\<forall>c \<in> set s. is_space c)"
proof
  assume e: "trim s = []"
  show "\<forall>c \<in> set s. is_space c"
  proof (cases "dropWhile is_space s")
    case Nil
    then show ?thesis by (rule dropWhile_Nil_all)
  next
    case (Cons x xs)
    then have "\<not> is_space x" by (metis hd_dropWhile list.sel(1) list.distinct(1))
    moreover from e have "dropWhile is_space (rev (dropWhile is_space s)) = []"
      by (simp add: trim_def)
    then have "\<forall>c \<in> set (rev (dropWhile is_space s)). is_space c"
      by (rule dropWhile_Nil_all)
    with Cons have "is_space x" by simp
    ultimately show ?thesis by simp
  qed
next
  assume "\<forall>c \<in> set s. is_space c"
  then have "dropWhile is_space s = []" by (rule dropWhile_all)
  then show "trim s = []" by (simp only: trim_def rev.simps dropWhile.simps)
qed

lemma match_marker_prefix: "match_marker s = Some x \<Longrightarrow> prefix (js ''[FN'') s"
  by (simp add: match_marker_def split: if_splits)

lemma fnMatch_prefix: "fnMatch line = Some x \<Longrightarrow> prefix (js ''[FN'') line"
  by (auto simp: fnMatch_def split: option.splits dest: match_marker_prefix)

lemma marker_prefix_not_blank: "prefix (js ''[FN'') line \<Longrightarrow> trim line \<noteq> []"
proof -
  assume "prefix (js ''[FN'') line"
  then obtain r where "line = 0x5B # r" by (auto simp: js_def prefix_def)
  then have "\<exists>c \<in> set line. \<not> is_space c" by (auto simp: is_space_def)
  then show ?thesis by (simp add: trim_empty_iff)
qed

lemma blank_no_definition: "trim line = [] \<Longrightarrow> fnMatch line = None"
  by (metis fnMatch_prefix marker_prefix_not_blank option.exhaust)

section \<open>Footnote markers inside a text\<close>

lemma digit_not_space: "is_digit c \<Longrightarrow> \<not> is_space c"
  unfolding is_digit_def is_space_def
  by (auto simp: word_le_nat_alt)

lemma bracket_classes:
  "\<not> is_space 0x5B" "\<not> is_digit 0x5B" "\<not> is_space 0x5D" "\<not> is_digit 0x5D"
  by (simp_all add: is_space_def is_digit_def)

lemma dropWhile_append_stop: "\<not> P z \<Longrightarrow> dropWhile P (xs @ z # zs) = dropWhile P xs @ z # zs"
  by (induction xs) auto

lemma takeWhile_append_stop: "\<not> P z \<Longrightarrow> takeWhile P (xs @ z # zs) = takeWhile P xs"
  by (induction xs) auto

text \<open>A marker with any whitespace between \<open>FN\<close> and the digits matches at its head.\<close>

lemma match_marker_token:
  assumes "list_all is_space w" and "n \<noteq> []" and "list_all is_digit n"
  shows "match_marker (js ''[FN'' @ w @ n @ js '']'' @ post) = Some (n, post)"
proof -
  from assms obtain d n' where n: "n = d # n'" and d: "is_digit d"
    by (cases n) auto
  have w: "dropWhile is_space (w @ n @ 0x5D # post) = n @ 0x5D # post"
    using assms(1) d n
    by (simp add: dropWhile_append2 list_all_iff digit_not_space)
  have t: "takeWhile is_digit (n @ 0x5D # post) = n"
    using assms(3) by (simp add: takeWhile_append2 list_all_iff bracket_classes)
  have dr: "dropWhile is_digit (n @ 0x5D # post) = 0x5D # post"
    using assms(3) by (simp add: dropWhile_append2 list_all_iff bracket_classes)
  have p: "prefix (js ''[FN'') (js ''[FN'' @ w @ n @ js '']'' @ post)"
    by simp
  have d3: "drop 3 (js ''[FN'' @ w @ n @ js '']'' @ post) = w @ n @ 0x5D # post"
    by (simp add: js_def)
  show ?thesis
    unfolding match_marker_def Let_def
    by (simp only: p d3 w t dr if_True list.case assms(2) not_False_eq_True simp_thms)
qed

text \<open>
  An opening bracket ends every attempt that has not yet succeeded: what precedes a
  text that starts with a bracket is matched as if it stood alone.
\<close>

lemma match_marker_before_bracket:
  assumes "s \<noteq> []"
  shows "match_marker (s @ 0x5B # y)
         = map_option (\<lambda>(n, r). (n, r @ 0x5B # y)) (match_marker s)"
proof (cases "prefix (js ''[FN'') s")
  case True
  then obtain t where s: "s = js ''[FN'' @ t"
    by (auto simp: prefix_def)
  have p: "prefix (js ''[FN'') (s @ 0x5B # y)"
    using True by (simp add: prefix_def) auto
  have d3: "drop 3 s = t" "drop 3 (s @ 0x5B # y) = t @ 0x5B # y"
    by (simp_all add: s js_def)
  define t1 where "t1 = dropWhile is_space t"
  have s1: "dropWhile is_space (t @ 0x5B # y) = t1 @ 0x5B # y"
    by (simp add: t1_def dropWhile_append_stop bracket_classes)
  have num: "takeWhile is_digit (t1 @ 0x5B # y) = takeWhile is_digit t1"
    by (simp add: takeWhile_append_stop bracket_classes)
  have s2: "dropWhile is_digit (t1 @ 0x5B # y) = dropWhile is_digit t1 @ 0x5B # y"
    by (simp add: dropWhile_append_stop bracket_classes)
  define u where "u = dropWhile is_digit t1"
  show ?thesis
    unfolding match_marker_def Let_def
    by (simp only: p True if_True d3 s1 num s2 t1_def [symmetric] u_def [symmetric])
       (cases u; simp)
next
  case False
  have "\<not> prefix (js ''[FN'') (s @ 0x5B # y)"
  proof (cases s)
    case Nil
    with assms show ?thesis by simp
  next
    case (Cons a s')
    note s = this
    show ?thesis
    proof (cases s')
      case Nil
      with s show ?thesis by (simp add: js_def)
    next
      case (Cons b s'')
      note s' = this
      show ?thesis
      proof (cases s'')
        case Nil
        with s s' show ?thesis by (simp add: js_def)
      next
        case (Cons c s''')
        with s s' False show ?thesis by (simp add: js_def)
      qed
    qed
  qed
  with False show ?thesis by (simp add: match_marker_def)
qed

lemma match_marker_shorter: "match_marker s = Some (n, r) \<Longrightarrow> length r < length s"
proof -
  assume m: "match_marker s = Some (n, r)"
  have "length (dropWhile Q (dropWhile P (drop k xs))) \<le> length xs"
    for P Q k and xs :: jstring
    by (metis le_trans length_dropWhile_le length_drop diff_le_self)
  then have le: "length r' < length xs" if "dropWhile Q (dropWhile P (drop k xs)) = d # r'"
    for P Q d r' k and xs :: jstring
    by (metis that length_Cons Suc_le_eq)
  from m show ?thesis
    unfolding match_marker_def Let_def
    by (auto split: if_splits list.splits dest: le)
qed

lemma replace_markers_before_bracket:
  "replace_markers f (s @ 0x5B # y) = replace_markers f s @ replace_markers f (0x5B # y)"
proof (induction s rule: length_induct)
  case (1 s)
  show ?case
  proof (cases s)
    case Nil
    then show ?thesis by simp
  next
    case (Cons c cs)
    have m: "match_marker ((c # cs) @ 0x5B # y)
             = map_option (\<lambda>(n, r). (n, r @ 0x5B # y)) (match_marker (c # cs))"
      by (rule match_marker_before_bracket) simp
    show ?thesis
    proof (cases "match_marker (c # cs)")
      case None
      with m have "match_marker (c # cs @ 0x5B # y) = None" by simp
      moreover have "replace_markers f (cs @ 0x5B # y)
                     = replace_markers f cs @ replace_markers f (0x5B # y)"
        using 1 Cons by simp
      ultimately show ?thesis using None Cons by simp
    next
      case (Some a)
      obtain n r where a: "a = (n, r)" by (cases a)
      with Some m have m': "match_marker (c # cs @ 0x5B # y) = Some (n, r @ 0x5B # y)"
        by simp
      from Some a have "length r < length s"
        using match_marker_shorter Cons by blast
      with 1 have "replace_markers f (r @ 0x5B # y)
                   = replace_markers f r @ replace_markers f (0x5B # y)"
        by simp
      with m' Some a Cons show ?thesis by simp
    qed
  qed
qed

text \<open>Every marker of a text is replaced by \<open>f\<close> of its digits.\<close>

lemma replace_markers_token:
  assumes "list_all is_space w" and "n \<noteq> []" and "list_all is_digit n"
  shows "replace_markers f (pre @ js ''[FN'' @ w @ n @ js '']'' @ post)
         = replace_markers f pre @ f n @ replace_markers f post"
proof -
  have tok: "js ''[FN'' @ w @ n @ js '']'' @ post = 0x5B # js ''FN'' @ w @ n @ js '']'' @ post"
    by (simp add: js_def)
  have "replace_markers f (0x5B # js ''FN'' @ w @ n @ js '']'' @ post)
        = f n @ replace_markers f post"
    using match_marker_token [OF assms, of post] by (simp add: tok)
  then show ?thesis
    by (simp only: tok replace_markers_before_bracket)
qed

section \<open>A non-empty text stays non-empty\<close>

lemma replace_all_char_nonempty: "s \<noteq> [] \<Longrightarrow> rep \<noteq> [] \<Longrightarrow> replace_all_char c rep s \<noteq> []"
  by (cases s) (auto simp: replace_all_char_def)

lemma replace_all_nonempty: "s \<noteq> [] \<Longrightarrow> rep \<noteq> [] \<Longrightarrow> replace_all pat rep s \<noteq> []"
  by (cases s) auto

lemma open_quotes_from_nonempty: "s \<noteq> [] \<Longrightarrow> open_quotes_from q r s \<noteq> []"
  by (cases "(q, r, s)" rule: open_quotes_from.cases) auto

lemma open_quotes_nonempty: "s \<noteq> [] \<Longrightarrow> open_quotes q r s \<noteq> []"
  by (cases s) (auto simp: open_quotes_def open_quotes_from_nonempty)

lemma close_quotes_nonempty: "s \<noteq> [] \<Longrightarrow> close_quotes s \<noteq> []"
  by (cases s rule: close_quotes.cases) auto

lemma smartTypography_nonempty: "s \<noteq> [] \<Longrightarrow> smartTypography_string s \<noteq> []"
  by (simp add: smartTypography_string_def Let_def replace_all_char_nonempty
      replace_all_nonempty open_quotes_nonempty close_quotes_nonempty)

lemma escapeHtml_nonempty: "s \<noteq> [] \<Longrightarrow> escapeHtml_string s \<noteq> []"
  by (simp add: escapeHtml_string_def replace_all_char_nonempty js_def)

lemma replace_first_nonempty: "s \<noteq> [] \<Longrightarrow> rep \<noteq> [] \<Longrightarrow> replace_first pat rep s \<noteq> []"
  by (cases s) auto

lemma anchor_nonempty: "anchor url term \<noteq> []"
  by (simp add: anchor_def js_def)

lemma addFootnoteLinks_nonempty: "s \<noteq> [] \<Longrightarrow> addFootnoteLinks s \<noteq> []"
  by (simp add: addFootnoteLinks_def links_def replace_first_nonempty anchor_nonempty)

lemma addFootnoteLinks_empty: "addFootnoteLinks [] = []"
  by (simp add: addFootnoteLinks_def links_def js_def)

section \<open>The ellipsis after a text\<close>

lemma replace_all_char_append:
  "replace_all_char c rep (x @ y) = replace_all_char c rep x @ replace_all_char c rep y"
  by (simp add: replace_all_char_def)

lemma prefix_append_disjoint:
  assumes "set pat \<inter> set y = {}"
  shows "prefix pat (x @ y) \<longleftrightarrow> prefix pat x"
proof
  assume "prefix pat (x @ y)"
  then have "prefix pat x \<or> (\<exists>p. pat = x @ p \<and> prefix p y)"
    by (simp add: prefix_append)
  then show "prefix pat x"
  proof
    assume "prefix pat x"
    then show ?thesis .
  next
    assume "\<exists>p. pat = x @ p \<and> prefix p y"
    then obtain p where p: "pat = x @ p" "prefix p y" by blast
    show ?thesis
    proof (cases p)
      case Nil
      with p show ?thesis by simp
    next
      case (Cons a p')
      with p have "a \<in> set pat" "a \<in> set y" by (auto simp: prefix_def)
      with assms show ?thesis by auto
    qed
  qed
next
  assume "prefix pat x"
  then show "prefix pat (x @ y)" by (rule prefix_prefix)
qed

lemma replace_all_disjoint: "set pat \<inter> set y = {} \<Longrightarrow> replace_all pat rep y = y"
proof (induction y)
  case Nil
  then show ?case by simp
next
  case (Cons a y)
  have "\<not> prefix pat (a # y)" if "pat \<noteq> []"
  proof
    assume "prefix pat (a # y)"
    with that obtain p' where "pat = a # p'" by (cases pat) auto
    with Cons.prems show False by auto
  qed
  with Cons show ?case by auto
qed

lemma replace_all_append_disjoint:
  "set pat \<inter> set y = {} \<Longrightarrow> replace_all pat rep (x @ y) = replace_all pat rep x @ y"
proof (induction pat rep x rule: replace_all.induct)
  case (1 pat rep)
  then show ?case by (simp add: replace_all_disjoint)
next
  case (2 pat rep c cs)
  have p: "prefix pat ((c # cs) @ y) \<longleftrightarrow> prefix pat (c # cs)"
    using 2(3) by (rule prefix_append_disjoint)
  show ?case
  proof (cases "pat \<noteq> [] \<and> prefix pat (c # cs)")
    case True
    then have "length pat \<le> length (c # cs)" by (auto dest: prefix_length_le)
    then have "drop (length pat) (c # cs @ y) = drop (length pat) (c # cs) @ y"
      by (metis append_Cons diff_is_0_eq drop_0 drop_append)
    with True p 2 show ?thesis by simp
  next
    case False
    with p 2 show ?thesis by auto
  qed
qed

lemma open_quotes_from_append:
  "q \<notin> set y \<Longrightarrow> open_quotes_from q r (x @ y) = open_quotes_from q r x @ y"
proof (induction q r x rule: open_quotes_from.induct)
  case (1 q r c d cs)
  then show ?case by simp
next
  fix q r :: jschar
  assume "q \<notin> set y"
  then show "open_quotes_from q r ([] @ y) = open_quotes_from q r [] @ y"
    by (simp add: open_quotes_from_absent)
next
  fix q r v :: jschar
  assume "q \<notin> set y"
  then show "open_quotes_from q r ([v] @ y) = open_quotes_from q r [v] @ y"
    by (cases y) (auto simp: open_quotes_from_absent)
qed

lemma open_quotes_append:
  assumes "q \<notin> set y"
  shows "open_quotes q r (x @ y) = open_quotes q r x @ y"
proof (cases x)
  case Nil
  have "open_quotes q r [] = []" by (simp add: open_quotes_def)
  with Nil assms show ?thesis by (simp add: open_quotes_absent)
next
  case (Cons a list)
  with open_quotes_from_append [OF assms, of r "a # list"]
    open_quotes_from_append [OF assms, of r list]
  show ?thesis by (simp add: open_quotes_def)
qed

lemma close_quotes_append:
  assumes "DQUOTE \<notin> set y" and "y \<noteq> []" and "after_close (hd y)"
  shows "close_quotes (x @ y) = close_quotes x @ y"
  using assms
proof (induction x rule: close_quotes.induct)
  case 1
  then show ?case by (simp add: close_quotes_absent)
next
  case (2 c)
  then show ?case by (cases y) (auto simp: close_quotes_absent)
next
  case (3 c d cs)
  then show ?case by simp
qed

lemma smartTypography_ellipsis:
  "smartTypography_string (x @ js ''...'') = smartTypography_string x @ js ''...''"
proof -
  have d: "js ''...'' = [0x2E, 0x2E, 0x2E]" by (simp add: js_def)
  have c: "replace_all_char q rep [0x2E, 0x2E, 0x2E] = [0x2E, 0x2E, 0x2E]" if "q \<noteq> 0x2E" for q rep
    using that by (simp add: replace_all_char_def)
  have a: "replace_all (js '' -- '') rep (t @ [0x2E, 0x2E, 0x2E])
           = replace_all (js '' -- '') rep t @ [0x2E, 0x2E, 0x2E]" for rep t
    by (rule replace_all_append_disjoint) (simp add: js_def)
  have b: "replace_all (js ''--'') rep (t @ [0x2E, 0x2E, 0x2E])
           = replace_all (js ''--'') rep t @ [0x2E, 0x2E, 0x2E]" for rep t
    by (rule replace_all_append_disjoint) (simp add: js_def)
  have o: "open_quotes q r (t @ [0x2E, 0x2E, 0x2E]) = open_quotes q r t @ [0x2E, 0x2E, 0x2E]"
    if "q \<noteq> 0x2E" for q r t
    using that by (simp add: open_quotes_append)
  have cl: "close_quotes (t @ [0x2E, 0x2E, 0x2E]) = close_quotes t @ [0x2E, 0x2E, 0x2E]" for t
    by (rule close_quotes_append) (simp_all add: after_close_def)
  show ?thesis
    by (simp add: smartTypography_string_def Let_def d a b o cl replace_all_char_append c)
qed

lemma escapeHtml_ellipsis:
  "escapeHtml_string (x @ js ''...'') = escapeHtml_string x @ js ''...''"
proof -
  have d: "js ''...'' = [0x2E, 0x2E, 0x2E]" by (simp add: js_def)
  have c: "replace_all_char q rep [0x2E, 0x2E, 0x2E] = [0x2E, 0x2E, 0x2E]" if "q \<noteq> 0x2E" for q rep
    using that by (simp add: replace_all_char_def)
  show ?thesis
    by (simp add: escapeHtml_string_def d replace_all_char_append c)
qed

section \<open>The first piece of a split\<close>

lemma split_on_first: "\<exists>rest. split_on P s = takeWhile (\<lambda>c. \<not> P c) s # rest"
  by (induction s) (auto split: list.splits)

lemma takeWhile_shorter_iff: "length (takeWhile P s) < length s \<longleftrightarrow> takeWhile P s \<noteq> s"
proof (induction s)
  case Nil
  then show ?case by simp
next
  case (Cons a s)
  have "length (takeWhile P s) \<le> length s" by (rule length_takeWhile_le)
  with Cons show ?case by (cases "P a") auto
qed

lemma getPreview_string_eq:
  "getPreview_string text =
     (let plain = trim (replace_markers (\<lambda>num. []) text);
          firstSentence = takeWhile (\<lambda>c. \<not> is_terminator c) plain
      in Inr (escapeHtml (JString (smartTypography (JString
           (if 120 < length firstSentence then take 117 firstSentence @ js ''...''
            else if firstSentence \<noteq> plain then firstSentence @ js ''...''
            else firstSentence))))))"
proof -
  define plain where "plain = trim (replace_markers (\<lambda>num. []) text)"
  define firstSentence where "firstSentence = takeWhile (\<lambda>c. \<not> is_terminator c) plain"
  obtain others where sp: "split_on is_terminator plain = firstSentence # others"
    using split_on_first [of is_terminator plain] by (auto simp: firstSentence_def)
  have lt: "length firstSentence < length plain \<longleftrightarrow> firstSentence \<noteq> plain"
    unfolding firstSentence_def by (rule takeWhile_shorter_iff)
  have sub: "substring0 117 firstSentence = take 117 firstSentence"
    by (simp add: substring0_def min_def)
  show ?thesis
    unfolding getPreview_string_def Let_def plain_def [symmetric]
    by (simp only: sp list.case lt sub firstSentence_def [symmetric]) simp
qed

section \<open>Code units of a typeset text\<close>

lemma set_replace_all_char: "set (replace_all_char c rep s) \<subseteq> set s \<union> set rep"
  by (induction s) (auto simp: replace_all_char_def)

lemma set_replace_all: "set (replace_all pat rep s) \<subseteq> set s \<union> set rep"
proof (induction pat rep s rule: replace_all.induct)
  case (1 pat rep)
  then show ?case by simp
next
  case (2 pat rep c cs)
  have "set (drop (length pat) (c # cs)) \<subseteq> set (c # cs)" by (rule set_drop_subset)
  with 2 show ?case by (auto split: if_splits)
qed

lemma set_open_quotes_from: "set (open_quotes_from q r s) \<subseteq> insert r (set s)"
  by (induction q r s rule: open_quotes_from.induct) auto

lemma set_open_quotes: "set (open_quotes q r s) \<subseteq> insert r (set s)"
  using set_open_quotes_from [of q r s] set_open_quotes_from [of q r "tl s"]
  by (cases s) (auto simp: open_quotes_def)

lemma set_close_quotes: "set (close_quotes s) \<subseteq> insert RDQUO (set s)"
  by (induction s rule: close_quotes.induct) auto

lemma typeset_no_full_stop:
  assumes "0x2E \<notin> set s"
  shows "0x2E \<notin> set (escapeHtml_string (smartTypography_string s))"
proof -
  let ?t1 = "replace_all (js '' -- '') [SPACE, EM_DASH, SPACE] s"
  let ?t2 = "replace_all (js ''--'') [EM_DASH] ?t1"
  let ?t3 = "open_quotes DQUOTE LDQUO ?t2"
  let ?t4 = "close_quotes ?t3"
  let ?t5 = "replace_all_char DQUOTE [RDQUO] ?t4"
  let ?t6 = "open_quotes SQUOTE LSQUO ?t5"
  let ?t7 = "replace_all_char SQUOTE [RSQUO] ?t6"
  let ?e1 = "replace_all_char AMP (js ''&amp;'') ?t7"
  let ?e2 = "replace_all_char LESS (js ''&lt;'') ?e1"
  let ?e3 = "replace_all_char GREATER (js ''&gt;'') ?e2"
  let ?e4 = "replace_all_char DQUOTE (js ''&quot;'') ?e3"
  have 1: "0x2E \<notin> set ?t1"
    using assms set_replace_all [of "js '' -- ''" "[SPACE, EM_DASH, SPACE]" s] by auto
  have 2: "0x2E \<notin> set ?t2"
    using 1 set_replace_all [of "js ''--''" "[EM_DASH]" ?t1] by auto
  have 3: "0x2E \<notin> set ?t3"
    using 2 set_open_quotes [of DQUOTE LDQUO ?t2] by auto
  have 4: "0x2E \<notin> set ?t4"
    using 3 set_close_quotes [of ?t3] by auto
  have 5: "0x2E \<notin> set ?t5"
    using 4 set_replace_all_char [of DQUOTE "[RDQUO]" ?t4] by auto
  have 6: "0x2E \<notin> set ?t6"
    using 5 set_open_quotes [of SQUOTE LSQUO ?t5] by auto
  have 7: "0x2E \<notin> set ?t7"
    using 6 set_replace_all_char [of SQUOTE "[RSQUO]" ?t6] by auto
  have 8: "0x2E \<notin> set ?e1"
    using 7 set_replace_all_char [of AMP "js ''&amp;''" ?t7] by (auto simp: js_def)
  have 9: "0x2E \<notin> set ?e2"
    using 8 set_replace_all_char [of LESS "js ''&lt;''" ?e1] by (auto simp: js_def)
  have 10: "0x2E \<notin> set ?e3"
    using 9 set_replace_all_char [of GREATER "js ''&gt;''" ?e2] by (auto simp: js_def)
  have 11: "0x2E \<notin> set ?e4"
    using 10 set_replace_all_char [of DQUOTE "js ''&quot;''" ?e3] by (auto simp: js_def)
  then show ?thesis
    unfolding escapeHtml_string_def smartTypography_string_def Let_def .
qed

section \<open>The first occurrence of a phrase\<close>

lemma replace_first_absent: "\<not> sublist pat s \<Longrightarrow> replace_first pat rep s = s"
proof (induction s)
  case Nil
  then show ?case by (cases pat) auto
next
  case (Cons c cs)
  then have "\<not> prefix pat (c # cs)" and "\<not> sublist pat cs"
    by (auto simp: sublist_Cons_right)
  with Cons.IH show ?case by simp
qed

text \<open>
  The occurrence of \<open>pat\<close> after \<open>pre\<close> is the first one when \<open>pat\<close> does not occur in
  \<open>pre\<close> followed by all but the last code unit of \<open>pat\<close>.
\<close>

lemma replace_first_at:
  "\<not> sublist pat (pre @ butlast pat) \<Longrightarrow>
   replace_first pat rep (pre @ pat @ post) = pre @ rep @ post"
proof (induction pre)
  case Nil
  then have "pat \<noteq> []" by auto
  then obtain c cs where "pat @ post = c # cs" by (cases pat) auto
  moreover have "prefix pat (pat @ post)" by simp
  ultimately show ?case by (metis append_Nil append_eq_conv_conj replace_first.simps(2))
next
  case (Cons a pre)
  have "\<not> prefix pat ((a # pre) @ pat @ post)"
  proof
    assume p: "prefix pat ((a # pre) @ pat @ post)"
    have "prefix (butlast pat) pat" by (rule prefixeq_butlast)
    then have q: "prefix ((a # pre) @ butlast pat) ((a # pre) @ pat @ post)"
      by (metis prefix_prefix same_prefix_prefix)
    have "length pat \<le> length ((a # pre) @ butlast pat)" by simp
    with p q have "prefix pat ((a # pre) @ butlast pat)"
      by (rule prefix_length_prefix)
    then have "sublist pat ((a # pre) @ butlast pat)" by (rule prefix_imp_sublist)
    with Cons.prems show False by simp
  qed
  moreover from Cons.prems have "\<not> sublist pat (pre @ butlast pat)"
    by (simp add: sublist_Cons_right)
  ultimately show ?case using Cons.IH by simp
qed

text \<open>
  A phrase does not straddle an inserted text \<open>r\<close> when the phrase does not begin
  with a code unit of \<open>r\<close> and does not contain the first code unit of \<open>r\<close>.
\<close>

lemma sublist_avoids:
  assumes s: "sublist p (a @ r @ b)"
    and "p \<noteq> []" and "r \<noteq> []" and hp: "hd p \<notin> set r" and hr: "hd r \<notin> set p"
  shows "sublist p a \<or> sublist p b"
proof -
  have inner: "sublist p b" if "sublist p (r @ b)"
  proof -
    from that consider "sublist p r" | "sublist p b"
      | x1 x2 where "p = x1 @ x2" "suffix x1 r" "prefix x2 b"
      by (auto simp: sublist_append)
    then show ?thesis
    proof cases
      case 1
      then have "set p \<subseteq> set r" by (rule set_mono_sublist)
      with \<open>p \<noteq> []\<close> hp show ?thesis by (cases p) auto
    next
      case 2
      then show ?thesis .
    next
      case 3
      show ?thesis
      proof (cases x1)
        case Nil
        with 3 show ?thesis by simp
      next
        case (Cons c cs)
        with 3 have "hd p = c" "c \<in> set r" by (auto simp: suffix_def)
        with hp show ?thesis by simp
      qed
    qed
  qed
  from s consider "sublist p a" | "sublist p (r @ b)"
    | x1 x2 where "p = x1 @ x2" "suffix x1 a" "prefix x2 (r @ b)"
    by (auto simp: sublist_append)
  then show ?thesis
  proof cases
    case 1
    then show ?thesis by simp
  next
    case 2
    then show ?thesis by (simp add: inner)
  next
    case 3
    show ?thesis
    proof (cases x2)
      case Nil
      with 3 show ?thesis by simp
    next
      case (Cons c cs)
      with 3 \<open>r \<noteq> []\<close> have "c = hd r" by (cases r) (auto simp: prefix_def)
      with 3 Cons hr show ?thesis by simp
    qed
  qed
qed

text \<open>A phrase that occurs has a first occurrence.\<close>

lemma first_occurrence_exists:
  "p \<noteq> [] \<Longrightarrow> sublist p t \<Longrightarrow>
   \<exists>pre post. t = pre @ p @ post \<and> \<not> sublist p (pre @ butlast p)"
proof (induction t)
  case Nil
  then show ?case by simp
next
  case (Cons c cs)
  show ?case
  proof (cases "prefix p (c # cs)")
    case True
    then obtain post where "c # cs = [] @ p @ post" by (auto simp: prefix_def)
    moreover have "\<not> sublist p ([] @ butlast p)"
    proof
      assume "sublist p ([] @ butlast p)"
      then have "sublist p (butlast p)" by simp
      then have "length p \<le> length (butlast p)" by (rule sublist_length_le)
      then have "length p \<le> length p - 1" by (simp only: length_butlast)
      with Cons.prems(1) show False by (cases p) simp_all
    qed
    ultimately show ?thesis by blast
  next
    case False
    with Cons.prems have "sublist p cs" by (simp add: sublist_Cons_right)
    from Cons.IH [OF Cons.prems(1) this] obtain pre post
      where t: "cs = pre @ p @ post" and n: "\<not> sublist p (pre @ butlast p)"
      by blast
    have "\<not> prefix p (c # pre @ butlast p)"
    proof
      assume "prefix p (c # pre @ butlast p)"
      moreover have "prefix (c # pre @ butlast p) (c # pre @ p @ post)"
        by (metis Cons_prefix_Cons prefix_prefix prefixeq_butlast same_prefix_prefix)
      ultimately have "prefix p (c # pre @ p @ post)" by (rule prefix_order.trans)
      with False t show False by simp
    qed
    with n have "\<not> sublist p ((c # pre) @ butlast p)"
      by (simp add: sublist_Cons_right)
    moreover from t have "c # cs = (c # pre) @ p @ post" by simp
    ultimately show ?thesis by blast
  qed
qed

text \<open>Two phrases that cannot overlap occur one after the other.\<close>

lemma occurrences_ordered:
  assumes "a @ p @ x = a' @ q @ x'" and "length a \<le> length a'"
    and "q \<noteq> []" and "hd q \<notin> set p"
  shows "\<exists>b. a' = a @ p @ b"
proof -
  define u where "u = drop (length a) a'"
  have "take (length a) (a @ p @ x) = take (length a) (a' @ q @ x')"
    using assms(1) by simp
  with assms(2) have "a = take (length a) a'" by simp
  then have u: "a' = a @ u"
    unfolding u_def by (metis append_take_drop_id)
  with assms(1) have e: "p @ x = u @ q @ x'" by simp
  show ?thesis
  proof (cases "length p \<le> length u")
    case True
    have "take (length p) (p @ x) = take (length p) (u @ q @ x')"
      using e by simp
    with True have "p = take (length p) u" by simp
    then have "u = p @ drop (length p) u" by (metis append_take_drop_id)
    with u show ?thesis by metis
  next
    case False
    define v where "v = drop (length u) p"
    have "take (length u) (p @ x) = take (length u) (u @ q @ x')"
      using e by simp
    with False have "take (length u) p = u" by simp
    then have p: "p = u @ v" unfolding v_def by (metis append_take_drop_id)
    from False have "v \<noteq> []" by (simp add: v_def)
    from e p have "v @ x = q @ x'" by simp
    with \<open>v \<noteq> []\<close> assms(3) have "hd v = hd q"
      by (metis hd_append2)
    moreover from \<open>v \<noteq> []\<close> p have "hd v \<in> set p" by (cases v) auto
    ultimately show ?thesis using assms(4) by simp
  qed
qed

section \<open>Entries whose caption is a string\<close>

lemma caption_string_ok:
  "\<exists>p c. getPreview (JString t) = Inr p \<and> formatCaption (JString t) = Inr c"
  by (simp add: getPreview_def formatCaption_def getPreview_string_eq Let_def)

lemma addEntry_string_ok: "\<exists>st'. addEntry imageUrl (JString t) postLink index st = Inr st'"
  using caption_string_ok [of t] by (auto simp: addEntry_def)

lemma add_manual_entries_ok: "\<exists>st'. add_manual_entries ms st = Inr st'"
proof (induction ms arbitrary: st)
  case Nil
  then show ?case by simp
next
  case (Cons m ms)
  obtain st1 where "addEntry (JString (m_imageUrl m)) (JString (m_title m))
      (JString (m_postUrl m)) (currentIndex st) st = Inr st1"
    using addEntry_string_ok by blast
  with Cons.IH [of "st1\<lparr>currentIndex := currentIndex st1 + 1\<rparr>"] show ?case by simp
qed

section \<open>Continuation lines of a footnote\<close>

text \<open>
  C1: in the caption whose lines are \<open>[FN2] second\<close>, \<open>[FN1] first\<close> and \<open>continued\<close>,
  the continuation line is appended to footnote 2, the last of \<open>Object.keys\<close>, and not
  to footnote 1, the entry inserted last.
\<close>

theorem continuation_appended_to_largest_index:
  "footnotes (extract_footnotes
      (js ''[FN2] second'' @ [LF] @ js ''[FN1] first'' @ [LF] @ js ''continued''))
   = [(js ''2'', js ''second continued''), (js ''1'', js ''first'')]"
  by code_simp

section \<open>The preview\<close>

text \<open>
  C2: let \<open>plain\<close> be the caption with every marker removed, trimmed, and
  \<open>firstSentence\<close> what precedes its first \<open>.\<close>, \<open>!\<close> or \<open>?\<close>.  If \<open>firstSentence\<close> has
  more than 120 code units, the preview is the typeset text (typography, then
  escaping) of its first 117 code units followed by three full stops.  Otherwise,
  if \<open>plain\<close> goes on after \<open>firstSentence\<close>, the preview is the typeset first sentence
  followed by three full stops.  Otherwise the preview is the typeset first
  sentence, which is the whole of \<open>plain\<close>, and holds no full stop.
\<close>

theorem preview_first_sentence:
  "(let plain = trim (replace_markers (\<lambda>num. []) text);
        firstSentence = takeWhile (\<lambda>c. \<not> is_terminator c) plain;
        typeset = (\<lambda>s. escapeHtml (JString (smartTypography (JString s))))
    in (120 < length firstSentence \<longrightarrow>
          getPreview (JString text) = Inr (typeset (take 117 firstSentence @ js ''...''))
          \<and> typeset (take 117 firstSentence @ js ''...'')
              = typeset (take 117 firstSentence) @ js ''...'')
     \<and> (length firstSentence \<le> 120 \<and> firstSentence \<noteq> plain \<longrightarrow>
          getPreview (JString text) = Inr (typeset (firstSentence @ js ''...''))
          \<and> typeset (firstSentence @ js ''...'') = typeset firstSentence @ js ''...'')
     \<and> (length firstSentence \<le> 120 \<and> firstSentence = plain \<longrightarrow>
          getPreview (JString text) = Inr (typeset plain)
          \<and> 0x2E \<notin> set (typeset plain)))"
proof -
  define plain where "plain = trim (replace_markers (\<lambda>num. []) text)"
  define firstSentence where "firstSentence = takeWhile (\<lambda>c. \<not> is_terminator c) plain"
  have dots: "escapeHtml (JString (smartTypography (JString (s @ js ''...''))))
              = escapeHtml (JString (smartTypography (JString s))) @ js ''...''" for s
    by (simp add: smartTypography_ellipsis escapeHtml_ellipsis)
  have g: "getPreview (JString text) = Inr (escapeHtml (JString (smartTypography (JString
           (if 120 < length firstSentence then take 117 firstSentence @ js ''...''
            else if firstSentence \<noteq> plain then firstSentence @ js ''...''
            else firstSentence)))))"
  proof (cases "text = []")
    case True
    have "replace_markers (\<lambda>num. []) [] = []" by simp
    then have "plain = []" using True by (simp add: plain_def trim_def)
    then have "firstSentence = []" by (simp add: firstSentence_def)
    with True \<open>plain = []\<close> show ?thesis
      by (simp add: getPreview_def smartTypography_string_def escapeHtml_string_def
          open_quotes_def replace_all_char_def)
  next
    case False
    then show ?thesis
      by (simp add: getPreview_def getPreview_string_eq Let_def plain_def firstSentence_def)
  qed
  have nodot: "0x2E \<notin> set (escapeHtml (JString (smartTypography (JString plain))))"
    if "firstSentence = plain"
  proof -
    have "\<forall>c \<in> set firstSentence. \<not> is_terminator c"
      unfolding firstSentence_def by (auto dest: set_takeWhileD)
    then have "0x2E \<notin> set firstSentence" by (auto simp: is_terminator_def)
    with that show ?thesis by (simp add: typeset_no_full_stop)
  qed
  show ?thesis
    unfolding Let_def plain_def [symmetric] firstSentence_def [symmetric]
    using g dots nodot by auto
qed

theorem preview_first_sentence_witness:
  "120 < length (takeWhile (\<lambda>c. \<not> is_terminator c)
       (trim (replace_markers (\<lambda>num. []) (replicate 121 0x61 @ js ''. End''))))
   \<and> getPreview (JString (replicate 121 0x61 @ js ''. End''))
       = Inr (replicate 117 0x61 @ js ''...'')
   \<and> takeWhile (\<lambda>c. \<not> is_terminator c)
       (trim (replace_markers (\<lambda>num. []) (js ''Dogs[FN 1] bark! Loudly.'')))
       \<noteq> trim (replace_markers (\<lambda>num. []) (js ''Dogs[FN 1] bark! Loudly.''))
   \<and> getPreview (JString (js ''Dogs[FN 1] bark! Loudly.'')) = Inr (js ''Dogs bark...'')
   \<and> takeWhile (\<lambda>c. \<not> is_terminator c)
       (trim (replace_markers (\<lambda>num. []) (js '' Dogs bark[FN2] '')))
       = trim (replace_markers (\<lambda>num. []) (js '' Dogs bark[FN2] ''))
   \<and> getPreview (JString (js '' Dogs bark[FN2] '')) = Inr (js ''Dogs bark'')"
proof -
  let ?long = "replicate 121 0x61 @ js ''. End''"
  have p: "trim (replace_markers (\<lambda>num. []) ?long) = ?long"
    by code_simp
  have f: "takeWhile (\<lambda>c. \<not> is_terminator c) ?long = replicate 121 0x61"
    by code_simp
  have t: "take 117 (replicate 121 (0x61 :: jschar)) = replicate 117 0x61"
    by simp
  have e: "escapeHtml (JString (smartTypography (JString (replicate 117 0x61))))
           = replicate 117 0x61"
    by (simp add: smartTypography_plain escapeHtml_plain no_hyphen_no_pair)
  from preview_first_sentence [of ?long]
  have "120 < length (replicate 121 (0x61 :: jschar)) \<longrightarrow>
        getPreview (JString ?long)
        = Inr (escapeHtml (JString (smartTypography (JString (replicate 117 0x61)))) @ js ''...'')"
    unfolding Let_def by (simp only: p f t) simp
  then have long: "getPreview (JString ?long) = Inr (replicate 117 0x61 @ js ''...'')"
    by (simp only: e) simp
  let ?more = "js ''Dogs[FN 1] bark! Loudly.''"
  have pm: "trim (replace_markers (\<lambda>num. []) ?more) = js ''Dogs bark! Loudly.''"
    by code_simp
  have fm: "takeWhile (\<lambda>c. \<not> is_terminator c) (js ''Dogs bark! Loudly.'') = js ''Dogs bark''"
    by code_simp
  have em: "escapeHtml (JString (smartTypography (JString (js ''Dogs bark'')))) = js ''Dogs bark''"
    by code_simp
  have nm: "js ''Dogs bark'' \<noteq> js ''Dogs bark! Loudly.''"
    by (simp add: js_def)
  from preview_first_sentence [of ?more]
  have "length (js ''Dogs bark'') \<le> 120 \<and> js ''Dogs bark'' \<noteq> js ''Dogs bark! Loudly.'' \<longrightarrow>
        getPreview (JString ?more)
        = Inr (escapeHtml (JString (smartTypography (JString (js ''Dogs bark'')))) @ js ''...'')"
    unfolding Let_def by (simp only: pm fm) simp
  then have more: "getPreview (JString ?more) = Inr (js ''Dogs bark...'')"
    by (simp only: em) (simp add: js_def)
  let ?whole = "js '' Dogs bark[FN2] ''"
  have pw: "trim (replace_markers (\<lambda>num. []) ?whole) = js ''Dogs bark''"
    by code_simp
  have fw: "takeWhile (\<lambda>c. \<not> is_terminator c) (js ''Dogs bark'') = js ''Dogs bark''"
    by code_simp
  from preview_first_sentence [of ?whole]
  have "length (js ''Dogs bark'') \<le> 120 \<longrightarrow>
        getPreview (JString ?whole)
        = Inr (escapeHtml (JString (smartTypography (JString (js ''Dogs bark'')))))"
    unfolding Let_def by (simp only: pw fw) simp
  then have whole: "getPreview (JString ?whole) = Inr (js ''Dogs bark'')"
    by (simp only: em) (simp add: js_def)
  have "120 < length (replicate 121 (0x61 :: jschar))"
    by simp
  with long more whole nm show ?thesis
    by (simp only: p f pm fm pw fw) simp
qed

section \<open>Captions that are not strings\<close>

text \<open>
  C3: a caption that is not a string is not turned into the empty string.  Called on
  the number 42, \<open>formatCaption\<close> and \<open>getPreview\<close> pass the test \<open>!text\<close> and raise a
  \<open>TypeError\<close>.  In the batch, the feed entry whose title element has a \<open>content\<close>
  child with an attribute is read by \<open>extractText\<close> as an object, not a string;
  \<open>applyTextReplacements\<close> raises a \<open>TypeError\<close> on it, and the whole assembly is
  aborted.
\<close>

theorem type_mismatched_caption_raises:
  "\<not> is_string (JNumber (Finite 42))
   \<and> formatCaption (JNumber (Finite 42)) = Inl TypeError
   \<and> getPreview (JNumber (Finite 42)) = Inl TypeError
   \<and> extractText (JObject [(js ''content'',
          JObject [(js ''_'', JString (js ''x'')),
                   (js ''$'', JObject [(js ''type'', JString (js ''text''))])])])
       = JObject [(js ''_'', JString (js ''x'')),
                  (js ''$'', JObject [(js ''type'', JString (js ''text''))])]
   \<and> build_entries
        [JObject [(js ''title'', JObject [(js ''content'',
            JObject [(js ''_'', JString (js ''x'')),
                     (js ''$'', JObject [(js ''type'', JString (js ''text''))])])]),
          (js ''media_content'',
           JObject [(js ''$'', JObject [(js ''url'', JString (js ''a.png''))])])]]
       = Inl TypeError"
proof -
  let ?node = "JObject [(js ''content'',
          JObject [(js ''_'', JString (js ''x'')),
                   (js ''$'', JObject [(js ''type'', JString (js ''text''))])])]"
  let ?entry = "JObject [(js ''title'', ?node),
          (js ''media_content'',
           JObject [(js ''$'', JObject [(js ''url'', JString (js ''a.png''))])])]"
  have n: "\<not> is_string (JNumber (Finite 42))"
    "formatCaption (JNumber (Finite 42)) = Inl TypeError"
    "getPreview (JNumber (Finite 42)) = Inl TypeError"
    by (simp_all add: formatCaption_def getPreview_def)
  have x: "extractText ?node
           = JObject [(js ''_'', JString (js ''x'')),
                      (js ''$'', JObject [(js ''type'', JString (js ''text''))])]"
    by code_simp
  have r: "read_entry ?entry = Inl TypeError"
    by code_simp
  obtain st0 where "add_manual_entries MANUAL_ENTRIES
      \<lparr>gridItems = [], lightboxSlides = [], currentIndex = 0\<rparr> = Inr st0"
    using add_manual_entries_ok by blast
  then have b: "build_entries [?entry] = Inl TypeError"
    by (simp add: build_entries_def r)
  show ?thesis
    by (rule conjI [OF n(1) conjI [OF n(2) conjI [OF n(3) conjI [OF x b]]]])
qed

section \<open>Rendering of the inline markers\<close>

lemma render_marker_cases:
  \<open>render_marker fs n =
     (case map_of fs n of
        Some d \<Rightarrow>
          if d \<noteq> [] then
            js ''<span class="footnote-ref" tabindex="0"><sup>'' @ n
            @ js ''</sup><span class="footnote-tooltip">''
            @ addFootnoteLinks (escapeHtml (JString (smartTypography (JString d))))
            @ js ''</span></span>''
          else js ''<sup class="footnote-ref">'' @ n @ js ''</sup>''
      | None \<Rightarrow> js ''<sup class="footnote-ref">'' @ n @ js ''</sup>'')\<close>
proof (cases "map_of fs n")
  case None
  then show ?thesis by (simp add: render_marker_def addFootnoteLinks_empty)
next
  case (Some d)
  show ?thesis
  proof (cases "d = []")
    case True
    with Some show ?thesis by (simp add: render_marker_def addFootnoteLinks_empty)
  next
    case False
    then have "addFootnoteLinks (escapeHtml_string (smartTypography_string d)) \<noteq> []"
      by (simp add: addFootnoteLinks_nonempty escapeHtml_nonempty smartTypography_nonempty)
    with Some False show ?thesis by (simp add: render_marker_def)
  qed
qed

text \<open>
  C4, as the claim states it, fails: in the caption of the two lines \<open>x[FN1]\<close> and
  \<open>[FN1]\<close> followed by a space, footnote 1 has a recorded definition (the empty
  text), and the marker is rendered as a plain superscript with no tooltip.
\<close>

theorem empty_definition_counterexample:
  \<open>map_of (footnotes (extract_footnotes (js ''x[FN1]'' @ [LF] @ js ''[FN1] ''))) (js ''1'')
     = Some []
   \<and> formatCaption (JString (js ''x[FN1]'' @ [LF] @ js ''[FN1] ''))
     = Inr (js ''x<sup class="footnote-ref">1</sup>'')\<close>
  by code_simp

text \<open>
  C4, amended: let the body of a caption, after typography and escaping, contain an
  inline marker \<open>[FN\<close>\<open>n\<close>\<open>]\<close>.  The formatted caption is the text before the marker
  with its own markers rendered, then the rendering of this marker, then the text
  after it, with the line breaks made explicit at the end.  If footnote \<open>n\<close> has a
  recorded definition that is not empty, the rendering is the numbered superscript
  trigger with a tooltip holding the definition after typography, escaping and term
  linking; if it has none, or an empty one, the rendering is the plain numbered
  superscript.
\<close>

theorem inline_marker_rendering:
  assumes "text \<noteq> []"
    and "fs = footnotes (extract_footnotes text)"
    and "escapeHtml (JString (smartTypography
           (JString (join [LF] (mainText (extract_footnotes text))))))
         = pre @ marker_token w n @ post"
    and "list_all is_space w" and "n \<noteq> []" and "list_all is_digit n"
  shows \<open>formatCaption (JString text) =
     Inr (replace_all_char LF (js ''<br>'')
       (replace_markers (render_marker fs) pre
        @ (case map_of fs n of
             Some d \<Rightarrow>
               if d \<noteq> [] then
                 js ''<span class="footnote-ref" tabindex="0"><sup>'' @ n
                 @ js ''</sup><span class="footnote-tooltip">''
                 @ addFootnoteLinks (escapeHtml (JString (smartTypography (JString d))))
                 @ js ''</span></span>''
               else js ''<sup class="footnote-ref">'' @ n @ js ''</sup>''
           | None \<Rightarrow> js ''<sup class="footnote-ref">'' @ n @ js ''</sup>'')
        @ replace_markers (render_marker fs) post))\<close>
proof -
  have "replace_markers (render_marker fs) (pre @ marker_token w n @ post)
        = replace_markers (render_marker fs) pre @ render_marker fs n
          @ replace_markers (render_marker fs) post"
    using replace_markers_token [OF assms(4-6), of "render_marker fs" pre post]
    by (simp add: marker_token_def)
  with assms(1-3) have "formatCaption (JString text) =
     Inr (replace_all_char LF (js ''<br>'')
       (replace_markers (render_marker fs) pre @ render_marker fs n
        @ replace_markers (render_marker fs) post))"
    by (simp add: formatCaption_def formatCaption_string_def Let_def)
  then show ?thesis
    by (simp only: render_marker_cases [of fs n])
qed

theorem inline_marker_rendering_witness:
  \<open>js ''A[FN1]b[FN2]'' @ [LF] @ js ''[FN1] Note'' \<noteq> []
   \<and> footnotes (extract_footnotes (js ''A[FN1]b[FN2]'' @ [LF] @ js ''[FN1] Note''))
       = [(js ''1'', js ''Note'')]
   \<and> list_all is_space [] \<and> js ''1'' \<noteq> [] \<and> list_all is_digit (js ''1'')
   \<and> formatCaption (JString (js ''A[FN1]b[FN2]'' @ [LF] @ js ''[FN1] Note''))
     = Inr (js ''A<span class="footnote-ref" tabindex="0"><sup>1</sup>''
            @ js ''<span class="footnote-tooltip">Note</span></span>''
            @ js ''b<sup class="footnote-ref">2</sup>'')\<close>
proof -
  let ?text = "js ''A[FN1]b[FN2]'' @ [LF] @ js ''[FN1] Note''"
  let ?fs = "[(js ''1'', js ''Note'')]"
  have h1: "?text \<noteq> []"
    by (simp add: js_def)
  have h2: "?fs = footnotes (extract_footnotes ?text)"
    by code_simp
  have h3: "escapeHtml (JString (smartTypography
              (JString (join [LF] (mainText (extract_footnotes ?text))))))
            = js ''A'' @ marker_token [] (js ''1'') @ js ''b[FN2]''"
    by code_simp
  have h4: "list_all is_space []" "js ''1'' \<noteq> []" "list_all is_digit (js ''1'')"
    by (simp_all add: js_def is_digit_def)
  have e1: "replace_markers (render_marker ?fs) (js ''A'') = js ''A''"
    by code_simp
  have e2: \<open>replace_markers (render_marker ?fs) (js ''b[FN2]'')
            = js ''b<sup class="footnote-ref">2</sup>''\<close>
    by code_simp
  have e3: "addFootnoteLinks (escapeHtml (JString (smartTypography (JString (js ''Note'')))))
            = js ''Note''"
    by code_simp
  have e4: "map_of ?fs (js ''1'') = Some (js ''Note'')" "js ''Note'' \<noteq> []"
    by (simp_all add: js_def)
  have e5: "replace_all_char LF (js ''<br>'') s = s" if "LF \<notin> set s" for s
    using that by (rule replace_all_char_absent)
  from inline_marker_rendering [OF h1 h2 h3 h4]
  have \<open>formatCaption (JString ?text) =
     Inr (replace_all_char LF (js ''<br>'')
       (js ''A'' @ (js ''<span class="footnote-ref" tabindex="0"><sup>'' @ js ''1''
                 @ js ''</sup><span class="footnote-tooltip">'' @ js ''Note''
                 @ js ''</span></span>'')
        @ js ''b<sup class="footnote-ref">2</sup>''))\<close>
    by (simp only: e1 e2 e3 e4 option.case if_True not_False_eq_True simp_thms)
  then have \<open>formatCaption (JString ?text)
     = Inr (js ''A<span class="footnote-ref" tabindex="0"><sup>1</sup>''
            @ js ''<span class="footnote-tooltip">Note</span></span>''
            @ js ''b<sup class="footnote-ref">2</sup>'')\<close>
    by (simp add: js_def replace_all_char_def)
  with h1 h2 h4 show ?thesis by simp
qed

section \<open>The one-way transition to the footnotes\<close>

lemma step_line_in_footnotes:
  "inFootnotes st \<Longrightarrow>
   inFootnotes (step_line st line) \<and> mainText (step_line st line) = mainText st"
  by (simp add: step_line_def split: option.splits prod.splits)

lemma run_in_footnotes:
  "inFootnotes st \<Longrightarrow>
   inFootnotes (foldl step_line st ls) \<and> mainText (foldl step_line st ls) = mainText st"
proof (induction ls arbitrary: st)
  case Nil
  then show ?case by simp
next
  case (Cons l ls)
  from Cons.prems have "inFootnotes (step_line st l)" "mainText (step_line st l) = mainText st"
    by (simp_all add: step_line_in_footnotes)
  with Cons.IH [of "step_line st l"] show ?case by simp
qed

lemma step_line_definition:
  "fnMatch line \<noteq> None \<Longrightarrow>
   inFootnotes (step_line st line) \<and> mainText (step_line st line) = mainText st"
  by (auto simp: step_line_def split: option.splits)

text \<open>
  C5: when a line of the caption is a footnote definition (it matches the pattern of
  \<open>fnMatch\<close>), the extractor ends in the state with \<open>inFootnotes\<close> set and its body text
  is what had been collected from the lines before that one: no later line is added.
  In the state with \<open>inFootnotes\<close> set a blank line (empty once trimmed) leaves the
  whole state as it is: footnotes, body text and \<open>inFootnotes\<close>.
\<close>

theorem footnotes_transition_one_way:
  "(split_on (\<lambda>c. c = LF) text = before @ line # after \<and> fnMatch line \<noteq> None \<longrightarrow>
      inFootnotes (extract_footnotes text)
      \<and> mainText (extract_footnotes text) = mainText (foldl step_line initial_state before))
   \<and> (inFootnotes st \<and> trim blank = [] \<longrightarrow> step_line st blank = st)"
proof (intro conjI impI)
  assume a: "split_on (\<lambda>c. c = LF) text = before @ line # after \<and> fnMatch line \<noteq> None"
  define s1 where "s1 = step_line (foldl step_line initial_state before) line"
  from a have s1: "inFootnotes s1" "mainText s1 = mainText (foldl step_line initial_state before)"
    by (simp_all add: s1_def step_line_definition)
  from a have "extract_footnotes text = foldl step_line s1 after"
    by (simp add: extract_footnotes_def s1_def)
  with run_in_footnotes [OF s1(1), of after] s1(2)
  show "inFootnotes (extract_footnotes text)"
    and "mainText (extract_footnotes text) = mainText (foldl step_line initial_state before)"
    by simp_all
next
  assume "inFootnotes st \<and> trim blank = []"
  then show "step_line st blank = st"
    by (simp add: step_line_def blank_no_definition)
qed

theorem footnotes_transition_one_way_witness:
  "split_on (\<lambda>c. c = LF) (js ''Body.'' @ [LF] @ js ''[FN1] Note.'' @ [LF] @ js ''more'')
     = [js ''Body.''] @ js ''[FN1] Note.'' # [js ''more'']
   \<and> fnMatch (js ''[FN1] Note.'') \<noteq> None
   \<and> mainText (extract_footnotes (js ''Body.'' @ [LF] @ js ''[FN1] Note.'' @ [LF] @ js ''more''))
     = [js ''Body.'']
   \<and> inFootnotes \<lparr>footnotes = [(js ''1'', js ''Note.'')], mainText = [js ''Body.''],
                   inFootnotes = True\<rparr>
   \<and> trim (js ''  '') = []
   \<and> step_line \<lparr>footnotes = [(js ''1'', js ''Note.'')], mainText = [js ''Body.''],
                  inFootnotes = True\<rparr> (js ''  '')
     = \<lparr>footnotes = [(js ''1'', js ''Note.'')], mainText = [js ''Body.''], inFootnotes = True\<rparr>"
proof -
  have h1: "split_on (\<lambda>c. c = LF) (js ''Body.'' @ [LF] @ js ''[FN1] Note.'' @ [LF] @ js ''more'')
     = [js ''Body.''] @ js ''[FN1] Note.'' # [js ''more'']"
    by code_simp
  have h2: "fnMatch (js ''[FN1] Note.'') \<noteq> None"
    by code_simp
  have h3: "mainText (foldl step_line initial_state [js ''Body.'']) = [js ''Body.'']"
    by code_simp
  have h4: "inFootnotes \<lparr>footnotes = [(js ''1'', js ''Note.'')], mainText = [js ''Body.''],
                   inFootnotes = True\<rparr>"
    by simp
  have h5: "trim (js ''  '') = []"
    by code_simp
  from footnotes_transition_one_way
    [of "js ''Body.'' @ [LF] @ js ''[FN1] Note.'' @ [LF] @ js ''more''" "[js ''Body.'']"
        "js ''[FN1] Note.''" "[js ''more'']"
        "\<lparr>footnotes = [(js ''1'', js ''Note.'')], mainText = [js ''Body.''], inFootnotes = True\<rparr>"
        "js ''  ''"]
    h1 h2 h3 h4 h5
  show ?thesis by simp
qed

section \<open>The typography normalizer on the examples\<close>

text \<open>
  C6: \<open>smartTypography\<close> turns \<open>a -- b\<close> into \<open>a\<close>, space, em dash, space, \<open>b\<close>; \<open>a--b\<close>
  into \<open>a\<close>, em dash, \<open>b\<close>; and in \<open>He said "hi" to Sam's dog.\<close> it puts an opening
  curly double quote before \<open>hi\<close>, a closing one after it, and a curly apostrophe in
  \<open>Sam's\<close>, changing nothing else.
\<close>

theorem smartTypography_examples:
  \<open>smartTypography (JString (js ''a -- b'')) = js ''a '' @ [EM_DASH] @ js '' b''
   \<and> smartTypography (JString (js ''a--b'')) = js ''a'' @ [EM_DASH] @ js ''b''
   \<and> smartTypography (JString (js ''He said "hi" to Sam'' @ [SQUOTE] @ js ''s dog.''))
       = js ''He said '' @ [LDQUO] @ js ''hi'' @ [RDQUO] @ js '' to Sam'' @ [RSQUO]
         @ js ''s dog.''\<close>
  by code_simp

section \<open>The term linker\<close>

lemma link_terms:
  "link_term 0 = js ''Minor Mage''"
  "link_term 1 = [LDQUO] @ js ''ideal city'' @ [RDQUO]"
  "link_term (Suc 0) = [LDQUO] @ js ''ideal city'' @ [RDQUO]"
  by (simp_all add: link_term_def links_def)

lemma addFootnoteLinks_rules:
  "addFootnoteLinks t
   = replace_first (link_term 1) (link_anchor 1) (replace_first (link_term 0) (link_anchor 0) t)"
  by (simp add: addFootnoteLinks_def links_def link_term_def link_anchor_def)

text \<open>The second phrase neither begins inside the first anchor nor holds its first code unit.\<close>

lemma ideal_city_avoids_anchor:
  assumes "sublist (link_term 1) (a @ link_anchor 0 @ b)"
  shows "sublist (link_term 1) a \<or> sublist (link_term 1) b"
proof (rule sublist_avoids [OF assms])
  show "link_term 1 \<noteq> []" by (simp add: link_terms)
  show "link_anchor 0 \<noteq> []" by (simp add: link_anchor_def anchor_nonempty)
  show "hd (link_term 1) \<notin> set (link_anchor 0)"
    by (simp add: link_terms link_anchor_def links_def anchor_def js_def)
  show "hd (link_anchor 0) \<notin> set (link_term 1)"
    by (simp add: link_terms link_anchor_def links_def anchor_def js_def)
qed

lemma link_term_heads:
  "link_term 0 \<noteq> []" "link_term 1 \<noteq> []"
  "hd (link_term 1) \<notin> set (link_term 0)" "hd (link_term 0) \<notin> set (link_term 1)"
  by (simp_all add: link_terms js_def)

text \<open>The cases by which the effect of the linker is stated cover every text.\<close>

lemma link_cases_exhaustive:
  "(\<not> sublist (link_term 0) t \<and> \<not> sublist (link_term 1) t)
   \<or> (\<exists>pre post. t = pre @ link_term 0 @ post
        \<and> \<not> sublist (link_term 0) (pre @ butlast (link_term 0))
        \<and> \<not> sublist (link_term 1) t)
   \<or> (\<exists>pre post. t = pre @ link_term 1 @ post
        \<and> \<not> sublist (link_term 1) (pre @ butlast (link_term 1))
        \<and> \<not> sublist (link_term 0) t)
   \<or> (\<exists>a b c. t = a @ link_term 0 @ b @ link_term 1 @ c
        \<and> \<not> sublist (link_term 0) (a @ butlast (link_term 0))
        \<and> \<not> sublist (link_term 1) (a @ link_term 0 @ b @ butlast (link_term 1)))
   \<or> (\<exists>a b c. t = a @ link_term 1 @ b @ link_term 0 @ c
        \<and> \<not> sublist (link_term 1) (a @ butlast (link_term 1))
        \<and> \<not> sublist (link_term 0) (a @ link_term 1 @ b @ butlast (link_term 0)))"
proof (cases "sublist (link_term 0) t")
  case no0: False
  show ?thesis
  proof (cases "sublist (link_term 1) t")
    case False
    with no0 show ?thesis by blast
  next
    case True
    from first_occurrence_exists [OF link_term_heads(2) True] no0
    show ?thesis by blast
  qed
next
  case yes0: True
  from first_occurrence_exists [OF link_term_heads(1) yes0]
  obtain a x where t0: "t = a @ link_term 0 @ x"
    and n0: "\<not> sublist (link_term 0) (a @ butlast (link_term 0))"
    by blast
  show ?thesis
  proof (cases "sublist (link_term 1) t")
    case False
    with t0 n0 show ?thesis by blast
  next
    case True
    from first_occurrence_exists [OF link_term_heads(2) True]
    obtain a' x' where t1: "t = a' @ link_term 1 @ x'"
      and n1: "\<not> sublist (link_term 1) (a' @ butlast (link_term 1))"
      by blast
    show ?thesis
    proof (cases "length a \<le> length a'")
      case True
      from t0 t1 have "a @ link_term 0 @ x = a' @ link_term 1 @ x'" by simp
      from occurrences_ordered [OF this True link_term_heads(2,3)]
      obtain b where b: "a' = a @ link_term 0 @ b" by blast
      from t1 b have "t = a @ link_term 0 @ b @ link_term 1 @ x'"
        by (simp only: append_assoc simp_thms)
      moreover from n1 b
      have "\<not> sublist (link_term 1) (a @ link_term 0 @ b @ butlast (link_term 1))"
        by (simp only: append_assoc simp_thms)
      ultimately show ?thesis using n0 by blast
    next
      case False
      then have le: "length a' \<le> length a" by simp
      from t0 t1 have "a' @ link_term 1 @ x' = a @ link_term 0 @ x" by simp
      from occurrences_ordered [OF this le link_term_heads(1,4)]
      obtain b where b: "a = a' @ link_term 1 @ b" by blast
      from t0 b have "t = a' @ link_term 1 @ b @ link_term 0 @ x"
        by (simp only: append_assoc simp_thms)
      moreover from n0 b
      have "\<not> sublist (link_term 0) (a' @ link_term 1 @ b @ butlast (link_term 0))"
        by (simp only: append_assoc simp_thms)
      ultimately show ?thesis using n1 by blast
    qed
  qed
qed

text \<open>
  C7: rule 0 of \<open>links\<close> is the phrase \<open>Minor Mage\<close>, rule 1 the phrase \<open>ideal city\<close> in
  curly quotes, and each anchor wraps its phrase, points to the URL of the rule and
  has \<open>target="_blank"\<close>.  A text with neither phrase is returned as it is.  In a
  text with one or both phrases, the first occurrence of each phrase (the one with no
  occurrence starting before it) is replaced by the anchor of its rule, and the rest
  of the text, later occurrences included, is kept as it is.  Every text falls under
  one of these cases.
\<close>

theorem term_linker_first_occurrence:
  \<open>link_term 0 = js ''Minor Mage''
   \<and> link_anchor 0
       = js ''<a href="https://amzn.to/4bBWxD9" target="_blank" rel="noopener">Minor Mage</a>''
   \<and> link_anchor 1
       = js ''<a href="'' @ snd (links ! 1) @ js ''" target="_blank" rel="noopener">''
         @ link_term 1 @ js ''</a>''
   \<and> (\<not> sublist (link_term 0) t \<and> \<not> sublist (link_term 1) t \<longrightarrow> addFootnoteLinks t = t)
   \<and> (t = pre @ link_term 0 @ post
        \<and> \<not> sublist (link_term 0) (pre @ butlast (link_term 0))
        \<and> \<not> sublist (link_term 1) t
        \<longrightarrow> addFootnoteLinks t = pre @ link_anchor 0 @ post)
   \<and> (t = pre @ link_term 1 @ post
        \<and> \<not> sublist (link_term 1) (pre @ butlast (link_term 1))
        \<and> \<not> sublist (link_term 0) t
        \<longrightarrow> addFootnoteLinks t = pre @ link_anchor 1 @ post)
   \<and> (t = a @ link_term 0 @ b @ link_term 1 @ c
        \<and> \<not> sublist (link_term 0) (a @ butlast (link_term 0))
        \<and> \<not> sublist (link_term 1) (a @ link_term 0 @ b @ butlast (link_term 1))
        \<longrightarrow> addFootnoteLinks t = a @ link_anchor 0 @ b @ link_anchor 1 @ c)
   \<and> (t = a @ link_term 1 @ b @ link_term 0 @ c
        \<and> \<not> sublist (link_term 1) (a @ butlast (link_term 1))
        \<and> \<not> sublist (link_term 0) (a @ link_term 1 @ b @ butlast (link_term 0))
        \<longrightarrow> addFootnoteLinks t = a @ link_anchor 1 @ b @ link_anchor 0 @ c)
   \<and> ((\<not> sublist (link_term 0) t \<and> \<not> sublist (link_term 1) t)
      \<or> (\<exists>pre post. t = pre @ link_term 0 @ post
           \<and> \<not> sublist (link_term 0) (pre @ butlast (link_term 0))
           \<and> \<not> sublist (link_term 1) t)
      \<or> (\<exists>pre post. t = pre @ link_term 1 @ post
           \<and> \<not> sublist (link_term 1) (pre @ butlast (link_term 1))
           \<and> \<not> sublist (link_term 0) t)
      \<or> (\<exists>a b c. t = a @ link_term 0 @ b @ link_term 1 @ c
           \<and> \<not> sublist (link_term 0) (a @ butlast (link_term 0))
           \<and> \<not> sublist (link_term 1) (a @ link_term 0 @ b @ butlast (link_term 1)))
      \<or> (\<exists>a b c. t = a @ link_term 1 @ b @ link_term 0 @ c
           \<and> \<not> sublist (link_term 1) (a @ butlast (link_term 1))
           \<and> \<not> sublist (link_term 0) (a @ link_term 1 @ b @ butlast (link_term 0))))\<close>
proof (intro conjI impI)
  show "link_term 0 = js ''Minor Mage''" by (simp add: link_terms)
  show \<open>link_anchor 0
       = js ''<a href="https://amzn.to/4bBWxD9" target="_blank" rel="noopener">Minor Mage</a>''\<close>
    by (simp add: link_anchor_def links_def anchor_def js_def)
  show \<open>link_anchor 1
       = js ''<a href="'' @ snd (links ! 1) @ js ''" target="_blank" rel="noopener">''
         @ link_term 1 @ js ''</a>''\<close>
    by (simp add: link_anchor_def link_term_def anchor_def)
next
  assume "\<not> sublist (link_term 0) t \<and> \<not> sublist (link_term 1) t"
  then have "replace_first (link_term 0) (link_anchor 0) t = t"
    and "replace_first (link_term 1) (link_anchor 1) t = t"
    by (blast intro: replace_first_absent)+
  then show "addFootnoteLinks t = t"
    by (simp only: addFootnoteLinks_rules simp_thms)
next
  assume h: "t = pre @ link_term 0 @ post
        \<and> \<not> sublist (link_term 0) (pre @ butlast (link_term 0))
        \<and> \<not> sublist (link_term 1) t"
  then have t: "t = pre @ link_term 0 @ post"
    and n0: "\<not> sublist (link_term 0) (pre @ butlast (link_term 0))"
    and n1: "\<not> sublist (link_term 1) (pre @ link_term 0 @ post)"
    by blast+
  have 1: "replace_first (link_term 0) (link_anchor 0) t = pre @ link_anchor 0 @ post"
    unfolding t using n0 by (rule replace_first_at)
  have "\<not> sublist (link_term 1) (pre @ link_anchor 0 @ post)"
  proof
    assume "sublist (link_term 1) (pre @ link_anchor 0 @ post)"
    then have "sublist (link_term 1) pre \<or> sublist (link_term 1) post"
      by (rule ideal_city_avoids_anchor)
    then have "sublist (link_term 1) (pre @ link_term 0 @ post)"
      by (auto simp only: sublist_append)
    with n1 show False ..
  qed
  then have "replace_first (link_term 1) (link_anchor 1) (pre @ link_anchor 0 @ post)
             = pre @ link_anchor 0 @ post"
    by (rule replace_first_absent)
  with 1 show "addFootnoteLinks t = pre @ link_anchor 0 @ post"
    by (simp only: addFootnoteLinks_rules simp_thms)
next
  assume h: "t = pre @ link_term 1 @ post
        \<and> \<not> sublist (link_term 1) (pre @ butlast (link_term 1))
        \<and> \<not> sublist (link_term 0) t"
  then have t: "t = pre @ link_term 1 @ post"
    and n1: "\<not> sublist (link_term 1) (pre @ butlast (link_term 1))"
    and n0: "\<not> sublist (link_term 0) t"
    by blast+
  from n0 have "replace_first (link_term 0) (link_anchor 0) t = t"
    by (rule replace_first_absent)
  moreover have "replace_first (link_term 1) (link_anchor 1) t = pre @ link_anchor 1 @ post"
    unfolding t using n1 by (rule replace_first_at)
  ultimately show "addFootnoteLinks t = pre @ link_anchor 1 @ post"
    by (simp only: addFootnoteLinks_rules simp_thms)
next
  assume h: "t = a @ link_term 0 @ b @ link_term 1 @ c
        \<and> \<not> sublist (link_term 0) (a @ butlast (link_term 0))
        \<and> \<not> sublist (link_term 1) (a @ link_term 0 @ b @ butlast (link_term 1))"
  then have t: "t = a @ link_term 0 @ (b @ link_term 1 @ c)"
    and n0: "\<not> sublist (link_term 0) (a @ butlast (link_term 0))"
    and n1: "\<not> sublist (link_term 1) (a @ (link_term 0 @ b @ butlast (link_term 1)))"
    by blast+
  have 1: "replace_first (link_term 0) (link_anchor 0) t
           = a @ link_anchor 0 @ (b @ link_term 1 @ c)"
    unfolding t using n0 by (rule replace_first_at)
  have "\<not> sublist (link_term 1) (a @ link_anchor 0 @ (b @ butlast (link_term 1)))"
  proof
    assume "sublist (link_term 1) (a @ link_anchor 0 @ (b @ butlast (link_term 1)))"
    then have "sublist (link_term 1) a \<or> sublist (link_term 1) (b @ butlast (link_term 1))"
      by (rule ideal_city_avoids_anchor)
    then have "sublist (link_term 1) (a @ (link_term 0 @ b @ butlast (link_term 1)))"
      by (auto simp only: sublist_append [of _ a] sublist_append [of _ "link_term 0"])
    with n1 show False ..
  qed
  then have "\<not> sublist (link_term 1) ((a @ link_anchor 0 @ b) @ butlast (link_term 1))"
    by (simp only: append_assoc simp_thms)
  then have "replace_first (link_term 1) (link_anchor 1)
               ((a @ link_anchor 0 @ b) @ link_term 1 @ c)
             = (a @ link_anchor 0 @ b) @ link_anchor 1 @ c"
    by (rule replace_first_at)
  then have "replace_first (link_term 1) (link_anchor 1)
               (a @ link_anchor 0 @ (b @ link_term 1 @ c))
             = a @ link_anchor 0 @ b @ link_anchor 1 @ c"
    by (simp only: append_assoc simp_thms)
  with 1 show "addFootnoteLinks t = a @ link_anchor 0 @ b @ link_anchor 1 @ c"
    by (simp only: addFootnoteLinks_rules simp_thms)
next
  assume h: "t = a @ link_term 1 @ b @ link_term 0 @ c
        \<and> \<not> sublist (link_term 1) (a @ butlast (link_term 1))
        \<and> \<not> sublist (link_term 0) (a @ link_term 1 @ b @ butlast (link_term 0))"
  then have t: "t = a @ link_term 1 @ b @ link_term 0 @ c"
    and n1: "\<not> sublist (link_term 1) (a @ butlast (link_term 1))"
    and n0: "\<not> sublist (link_term 0) (a @ link_term 1 @ b @ butlast (link_term 0))"
    by blast+
  from n0 have "\<not> sublist (link_term 0) ((a @ link_term 1 @ b) @ butlast (link_term 0))"
    by (simp only: append_assoc simp_thms)
  then have "replace_first (link_term 0) (link_anchor 0) ((a @ link_term 1 @ b) @ link_term 0 @ c)
             = (a @ link_term 1 @ b) @ link_anchor 0 @ c"
    by (rule replace_first_at)
  then have 1: "replace_first (link_term 0) (link_anchor 0) t
                = a @ link_term 1 @ (b @ link_anchor 0 @ c)"
    unfolding t by (simp only: append_assoc simp_thms)
  from n1 have "replace_first (link_term 1) (link_anchor 1)
                 (a @ link_term 1 @ (b @ link_anchor 0 @ c))
               = a @ link_anchor 1 @ (b @ link_anchor 0 @ c)"
    by (rule replace_first_at)
  with 1 show "addFootnoteLinks t = a @ link_anchor 1 @ b @ link_anchor 0 @ c"
    by (simp only: addFootnoteLinks_rules append_assoc simp_thms)
next
  show "(\<not> sublist (link_term 0) t \<and> \<not> sublist (link_term 1) t)
      \<or> (\<exists>pre post. t = pre @ link_term 0 @ post
           \<and> \<not> sublist (link_term 0) (pre @ butlast (link_term 0))
           \<and> \<not> sublist (link_term 1) t)
      \<or> (\<exists>pre post. t = pre @ link_term 1 @ post
           \<and> \<not> sublist (link_term 1) (pre @ butlast (link_term 1))
           \<and> \<not> sublist (link_term 0) t)
      \<or> (\<exists>a b c. t = a @ link_term 0 @ b @ link_term 1 @ c
           \<and> \<not> sublist (link_term 0) (a @ butlast (link_term 0))
           \<and> \<not> sublist (link_term 1) (a @ link_term 0 @ b @ butlast (link_term 1)))
      \<or> (\<exists>a b c. t = a @ link_term 1 @ b @ link_term 0 @ c
           \<and> \<not> sublist (link_term 1) (a @ butlast (link_term 1))
           \<and> \<not> sublist (link_term 0) (a @ link_term 1 @ b @ butlast (link_term 0)))"
    by (rule link_cases_exhaustive)
qed

theorem term_linker_first_occurrence_witness:
  \<open>\<not> sublist (link_term 0) (js ''Read '' @ butlast (link_term 0))
   \<and> \<not> sublist (link_term 1) (js ''Read '' @ link_term 0 @ js '', then Minor Mage.'')
   \<and> addFootnoteLinks (js ''Read '' @ link_term 0 @ js '', then Minor Mage.'')
     = js ''Read '' @ link_anchor 0 @ js '', then Minor Mage.''
   \<and> js ''Read '' @ link_term 0 @ js '', then Minor Mage.''
     = js ''Read Minor Mage, then Minor Mage.''
   \<and> js ''Read '' @ link_anchor 0 @ js '', then Minor Mage.''
     = js ''Read <a href="https://amzn.to/4bBWxD9" target="_blank" rel="noopener">''
       @ js ''Minor Mage</a>, then Minor Mage.''\<close>
proof -
  have h1: "\<not> sublist (link_term 0) (js ''Read '' @ butlast (link_term 0))"
    unfolding link_terms by code_simp
  have h2: "\<not> sublist (link_term 1) (js ''Read '' @ link_term 0 @ js '', then Minor Mage.'')"
    unfolding link_terms by code_simp
  have e1: "js ''Read '' @ link_term 0 @ js '', then Minor Mage.''
            = js ''Read Minor Mage, then Minor Mage.''"
    by (simp add: link_terms js_def)
  have e2: \<open>js ''Read '' @ link_anchor 0 @ js '', then Minor Mage.''
     = js ''Read <a href="https://amzn.to/4bBWxD9" target="_blank" rel="noopener">''
       @ js ''Minor Mage</a>, then Minor Mage.''\<close>
    by (simp add: link_anchor_def links_def anchor_def js_def)
  from term_linker_first_occurrence
    [of "js ''Read '' @ link_term 0 @ js '', then Minor Mage.''" "js ''Read ''"
        "js '', then Minor Mage.''"]
    h1 h2
  have "addFootnoteLinks (js ''Read '' @ link_term 0 @ js '', then Minor Mage.'')
        = js ''Read '' @ link_anchor 0 @ js '', then Minor Mage.''"
    by blast
  with h1 h2 e1 e2 show ?thesis by blast
qed

section \<open>Index alignment of the assembled entries\<close>

lemma addEntry_Inr:
  assumes "addEntry imageUrl title postLink index st = Inr st'"
  shows "\<exists>item sl. describes (index, imageUrl, title, postLink) (item, sl)
           \<and> gridItems st' = gridItems st @ [item]
           \<and> lightboxSlides st' = lightboxSlides st @ [sl]
           \<and> currentIndex st' = currentIndex st"
  using assms
  by (auto simp: addEntry_def describes_def split: sum.splits)

lemma index_aligned_step:
  assumes inv: "index_aligned kept st"
    and add: "addEntry imageUrl title postLink (currentIndex st) st = Inr st'"
  shows "index_aligned (kept @ [(imageUrl, title, postLink)])
           (st'\<lparr>currentIndex := currentIndex st' + 1\<rparr>)"
proof -
  from addEntry_Inr [OF add] obtain item sl
    where d: "describes (currentIndex st, imageUrl, title, postLink) (item, sl)"
      and g: "gridItems st' = gridItems st @ [item]"
      and l: "lightboxSlides st' = lightboxSlides st @ [sl]"
      and c: "currentIndex st' = currentIndex st"
    by blast
  from inv have n: "currentIndex st = length kept"
    and len: "length (gridItems st) = length (lightboxSlides st)"
    and all: "list_all2 describes (zip [0..<length kept] kept)
                (zip (gridItems st) (lightboxSlides st))"
    by (simp_all add: index_aligned_def)
  have z1: "zip [0..<length (kept @ [(imageUrl, title, postLink)])]
              (kept @ [(imageUrl, title, postLink)])
            = zip [0..<length kept] kept @ [(length kept, imageUrl, title, postLink)]"
    by simp
  have z2: "zip (gridItems st @ [item]) (lightboxSlides st @ [sl])
            = zip (gridItems st) (lightboxSlides st) @ [(item, sl)]"
    using len by simp
  have "list_all2 describes
          (zip [0..<length kept] kept @ [(length kept, imageUrl, title, postLink)])
          (zip (gridItems st) (lightboxSlides st) @ [(item, sl)])"
    using all d n by (auto intro: list_all2_appendI)
  then show ?thesis
    unfolding index_aligned_def
    using g l c n len by (simp only: z1 z2) simp
qed

lemma add_manual_entries_aligned:
  "index_aligned kept st \<Longrightarrow> add_manual_entries ms st = Inr st' \<Longrightarrow>
   index_aligned (kept @ map manual_fields ms) st'"
proof (induction ms arbitrary: kept st)
  case Nil
  then show ?case by simp
next
  case (Cons m ms)
  from Cons.prems(2) obtain st1
    where a: "addEntry (JString (m_imageUrl m)) (JString (m_title m)) (JString (m_postUrl m))
                (currentIndex st) st = Inr st1"
      and r: "add_manual_entries ms (st1\<lparr>currentIndex := currentIndex st1 + 1\<rparr>) = Inr st'"
    by (auto split: sum.splits)
  from index_aligned_step [OF Cons.prems(1) a]
  have "index_aligned (kept @ [manual_fields m]) (st1\<lparr>currentIndex := currentIndex st1 + 1\<rparr>)"
    by (simp add: manual_fields_def)
  from Cons.IH [OF this r] show ?case by simp
qed

lemma add_feed_entries_aligned:
  "index_aligned kept st \<Longrightarrow> add_feed_entries es st = Inr st' \<Longrightarrow>
   \<exists>fields. map read_entry es = map Inr fields
     \<and> index_aligned
          (kept @ filter (\<lambda>(imageUrl, title, postUrl). truthy imageUrl) fields) st'"
proof (induction es arbitrary: kept st)
  case Nil
  then show ?case by simp
next
  case (Cons e es)
  from Cons.prems(2) obtain imageUrl title postUrl
    where re: "read_entry e = Inr (imageUrl, title, postUrl)"
    by (auto split: sum.splits)
  show ?case
  proof (cases "truthy imageUrl")
    case True
    with Cons.prems(2) re obtain st1
      where a: "addEntry imageUrl title postUrl (currentIndex st) st = Inr st1"
        and r: "add_feed_entries es (st1\<lparr>currentIndex := currentIndex st1 + 1\<rparr>) = Inr st'"
      by (auto split: sum.splits)
    from Cons.IH [OF index_aligned_step [OF Cons.prems(1) a] r]
    obtain fields where f: "map read_entry es = map Inr fields"
      and i: "index_aligned
          ((kept @ [(imageUrl, title, postUrl)])
            @ filter (\<lambda>(imageUrl, title, postUrl). truthy imageUrl) fields) st'"
      by blast
    from f re have "map read_entry (e # es) = map Inr ((imageUrl, title, postUrl) # fields)"
      by simp
    moreover from i True have "index_aligned
          (kept @ filter (\<lambda>(imageUrl, title, postUrl). truthy imageUrl)
                    ((imageUrl, title, postUrl) # fields)) st'"
      by simp
    ultimately show ?thesis by blast
  next
    case False
    with Cons.prems(2) re have r: "add_feed_entries es st = Inr st'"
      by simp
    from Cons.IH [OF Cons.prems(1) r]
    obtain fields where f: "map read_entry es = map Inr fields"
      and i: "index_aligned
          (kept @ filter (\<lambda>(imageUrl, title, postUrl). truthy imageUrl) fields) st'"
      by blast
    from f re have "map read_entry (e # es) = map Inr ((imageUrl, title, postUrl) # fields)"
      by simp
    moreover from i False have "index_aligned
          (kept @ filter (\<lambda>(imageUrl, title, postUrl). truthy imageUrl)
                    ((imageUrl, title, postUrl) # fields)) st'"
      by simp
    ultimately show ?thesis by blast
  qed
qed

lemma read_entry_title:
  "read_entry e = Inr (imageUrl, title, postUrl) \<Longrightarrow> \<exists>t. title = JString t"
  by (auto simp: read_entry_def applyTextReplacements_def Let_def
      split: sum.splits jsvalue.splits)

lemma add_feed_entries_ok:
  "(\<forall>e \<in> set es. read_entry e \<noteq> Inl TypeError) \<Longrightarrow> \<exists>st'. add_feed_entries es st = Inr st'"
proof (induction es arbitrary: st)
  case Nil
  then show ?case by simp
next
  case (Cons e es)
  then have "read_entry e \<noteq> Inl TypeError" by simp
  then obtain imageUrl title postUrl where re: "read_entry e = Inr (imageUrl, title, postUrl)"
    by (cases "read_entry e") (auto intro: error.exhaust)
  then obtain t where t: "title = JString t"
    using read_entry_title by blast
  obtain st1 where a: "addEntry imageUrl title postUrl (currentIndex st) st = Inr st1"
    using addEntry_string_ok t by blast
  from Cons have ih: "\<exists>st'. add_feed_entries es s = Inr st'" for s
    by simp
  show ?case
  proof (cases "truthy imageUrl")
    case True
    with re a ih [of "st1\<lparr>currentIndex := currentIndex st1 + 1\<rparr>"] show ?thesis by simp
  next
    case False
    with re ih [of st] show ?thesis by simp
  qed
qed

lemma index_aligned_indices:
  assumes "index_aligned kept st"
  shows "map grid_index (gridItems st) = [0..<length kept]
         \<and> map slide_index (lightboxSlides st) = [0..<length kept]"
proof -
  from assms have len: "length (gridItems st) = length (lightboxSlides st)"
    and all: "list_all2 describes (zip [0..<length kept] kept)
                (zip (gridItems st) (lightboxSlides st))"
    by (simp_all add: index_aligned_def)
  from all have "length (zip [0..<length kept] kept)
                 = length (zip (gridItems st) (lightboxSlides st))"
    by (rule list_all2_lengthD)
  with len have lg: "length (gridItems st) = length kept"
    and ls: "length (lightboxSlides st) = length kept"
    by simp_all
  have at: "grid_index (gridItems st ! i) = i \<and> slide_index (lightboxSlides st ! i) = i"
    if "i < length kept" for i
  proof -
    have "i < length (zip [0..<length kept] kept)"
      using that by simp
    with all have "describes (zip [0..<length kept] kept ! i)
                     (zip (gridItems st) (lightboxSlides st) ! i)"
      by (rule list_all2_nthD)
    with that lg ls show ?thesis by (simp add: describes_def)
  qed
  have "map grid_index (gridItems st) = [0..<length kept]"
    by (rule nth_equalityI) (simp_all add: lg at)
  moreover have "map slide_index (lightboxSlides st) = [0..<length kept]"
    by (rule nth_equalityI) (simp_all add: ls at)
  ultimately show ?thesis by simp
qed

text \<open>
  C8: when the assembly of the manual entries and of the (reversed) feed returns,
  every feed entry has been read, and with \<open>kept\<close> the manual entries followed by the
  feed entries whose image URL is truthy, in order, the thumbnails and the slides
  have one position per kept entry, and at position \<open>i\<close> both carry the index \<open>i\<close> and
  describe the \<open>i\<close>-th kept entry: the indices run from 0 without a gap, and an entry
  with no image URL is in neither sequence.  The assembly returns whenever reading
  no feed entry raises.
\<close>

theorem entries_index_aligned:
  "(build_entries feed = Inr st \<longrightarrow>
      (\<exists>fields. map read_entry (rev feed) = map Inr fields
         \<and> (let kept = map manual_fields MANUAL_ENTRIES
                         @ filter (\<lambda>(imageUrl, title, postUrl). truthy imageUrl) fields
            in index_aligned kept st
               \<and> map grid_index (gridItems st) = [0..<length kept]
               \<and> map slide_index (lightboxSlides st) = [0..<length kept])))
   \<and> ((\<forall>entry \<in> set feed. read_entry entry \<noteq> Inl TypeError) \<longrightarrow>
        (\<exists>st. build_entries feed = Inr st))"
proof (intro conjI impI)
  assume b: "build_entries feed = Inr st"
  let ?init = "\<lparr>gridItems = [], lightboxSlides = [], currentIndex = 0\<rparr>"
  from b obtain st0 where m: "add_manual_entries MANUAL_ENTRIES ?init = Inr st0"
    and f: "add_feed_entries (rev feed) st0 = Inr st"
    by (auto simp: build_entries_def split: sum.splits)
  have "index_aligned [] ?init"
    by (simp add: index_aligned_def)
  from add_manual_entries_aligned [OF this m]
  have "index_aligned (map manual_fields MANUAL_ENTRIES) st0"
    by simp
  from add_feed_entries_aligned [OF this f]
  obtain fields where r: "map read_entry (rev feed) = map Inr fields"
    and i: "index_aligned (map manual_fields MANUAL_ENTRIES
                @ filter (\<lambda>(imageUrl, title, postUrl). truthy imageUrl) fields) st"
    by blast
  from r i index_aligned_indices [OF i]
  show "\<exists>fields. map read_entry (rev feed) = map Inr fields
         \<and> (let kept = map manual_fields MANUAL_ENTRIES
                         @ filter (\<lambda>(imageUrl, title, postUrl). truthy imageUrl) fields
            in index_aligned kept st
               \<and> map grid_index (gridItems st) = [0..<length kept]
               \<and> map slide_index (lightboxSlides st) = [0..<length kept])"
    unfolding Let_def by blast
next
  assume "\<forall>entry \<in> set feed. read_entry entry \<noteq> Inl TypeError"
  then have "\<forall>entry \<in> set (rev feed). read_entry entry \<noteq> Inl TypeError"
    by simp
  from add_feed_entries_ok [OF this] add_manual_entries_ok
  show "\<exists>st. build_entries feed = Inr st"
    unfolding build_entries_def by (metis sum.simps(6))
qed

theorem entries_index_aligned_witness:
  "read_entry (JObject [(js ''title'', JString (js ''One'')),
       (js ''media_content'', JObject [(js ''$'', JObject [(js ''url'', JString (js ''a.png''))])])])
     = Inr (JString (js ''a.png''), JString (js ''One''), JString [])
   \<and> read_entry (JObject [(js ''title'', JObject [(js ''_'', JString (js ''Two''))])])
     = Inr (JString [], JString (js ''Two''), JString [])
   \<and> (\<exists>st. build_entries
          [JObject [(js ''title'', JObject [(js ''_'', JString (js ''Two''))])],
           JObject [(js ''title'', JString (js ''One'')),
             (js ''media_content'',
              JObject [(js ''$'', JObject [(js ''url'', JString (js ''a.png''))])])]]
        = Inr st
        \<and> map grid_index (gridItems st) = [0, 1, 2]
        \<and> map slide_index (lightboxSlides st) = [0, 1, 2])"
proof -
  let ?e1 = "JObject [(js ''title'', JString (js ''One'')),
       (js ''media_content'', JObject [(js ''$'', JObject [(js ''url'', JString (js ''a.png''))])])]"
  let ?e2 = "JObject [(js ''title'', JObject [(js ''_'', JString (js ''Two''))])]"
  have r1: "read_entry ?e1 = Inr (JString (js ''a.png''), JString (js ''One''), JString [])"
    by code_simp
  have r2: "read_entry ?e2 = Inr (JString [], JString (js ''Two''), JString [])"
    by code_simp
  have "\<forall>entry \<in> set [?e2, ?e1]. read_entry entry \<noteq> Inl TypeError"
    by (simp add: r1 r2)
  with entries_index_aligned [of "[?e2, ?e1]"]
  obtain st where b: "build_entries [?e2, ?e1] = Inr st"
    by blast
  with entries_index_aligned [of "[?e2, ?e1]" st]
  obtain fields where f: "map read_entry (rev [?e2, ?e1]) = map Inr fields"
    and i: "map grid_index (gridItems st)
            = [0..<length (map manual_fields MANUAL_ENTRIES
                 @ filter (\<lambda>(imageUrl, title, postUrl). truthy imageUrl) fields)]"
      "map slide_index (lightboxSlides st)
            = [0..<length (map manual_fields MANUAL_ENTRIES
                 @ filter (\<lambda>(imageUrl, title, postUrl). truthy imageUrl) fields)]"
    unfolding Let_def by blast
  from f have "map Inr fields
      = [Inr (JString (js ''a.png''), JString (js ''One''), JString []),
         Inr (JString [], JString (js ''Two''), JString []) :: error + _]"
    by (simp add: r1 r2)
  then have fields: "fields = [(JString (js ''a.png''), JString (js ''One''), JString []),
         (JString [], JString (js ''Two''), JString [])]"
    by (auto simp: map_eq_Cons_conv)
  have a: "js ''a.png'' \<noteq> []"
    by (simp add: js_def)
  have m: "length MANUAL_ENTRIES = 2"
    unfolding MANUAL_ENTRIES_def
    by (simp only: list.size One_nat_def add_Suc_right add_0_right numeral_2_eq_2)
  have u: "[0..<3] = [0, 1, 2]"
    by (simp add: upt_conv_Cons)
  have k: "length (map manual_fields MANUAL_ENTRIES
                 @ filter (\<lambda>(imageUrl, title, postUrl). truthy imageUrl) fields) = 3"
    by (simp add: fields a m)
  from i have "map grid_index (gridItems st) = [0, 1, 2]"
    and "map slide_index (lightboxSlides st) = [0, 1, 2]"
    by (simp_all only: k u)
  with b have "build_entries [?e2, ?e1] = Inr st
        \<and> map grid_index (gridItems st) = [0, 1, 2]
        \<and> map slide_index (lightboxSlides st) = [0, 1, 2]"
    by (intro conjI)
  then have ex: "\<exists>st. build_entries [?e2, ?e1] = Inr st
        \<and> map grid_index (gridItems st) = [0, 1, 2]
        \<and> map slide_index (lightboxSlides st) = [0, 1, 2]"
    by (rule exI)
  show ?thesis
    by (rule conjI [OF r1 conjI [OF r2 ex]])
qed

section \<open>Text without special characters\<close>

text \<open>
  C9: on a string with no two hyphens in a row, no straight double quote, no
  apostrophe and none of \<open>&\<close>, \<open><\<close>, \<open>>\<close>, both \<open>smartTypography\<close> and \<open>escapeHtml\<close> return
  the string itself.
\<close>

theorem plain_text_unchanged:
  assumes "\<not> adjacent_hyphens s" and "DQUOTE \<notin> set s" and "SQUOTE \<notin> set s"
    and "AMP \<notin> set s" and "LESS \<notin> set s" and "GREATER \<notin> set s"
  shows "smartTypography (JString s) = s \<and> escapeHtml (JString s) = s"
proof
  from assms(1-3) show "smartTypography (JString s) = s"
    by (simp add: smartTypography_plain)
  from assms(2,4-6) show "escapeHtml (JString s) = s"
    by (simp add: escapeHtml_plain)
qed

theorem plain_text_unchanged_witness:
  "\<not> adjacent_hyphens (js ''Maven rode on - alone.'')
   \<and> DQUOTE \<notin> set (js ''Maven rode on - alone.'')
   \<and> SQUOTE \<notin> set (js ''Maven rode on - alone.'')
   \<and> AMP \<notin> set (js ''Maven rode on - alone.'')
   \<and> LESS \<notin> set (js ''Maven rode on - alone.'')
   \<and> GREATER \<notin> set (js ''Maven rode on - alone.'')
   \<and> smartTypography (JString (js ''Maven rode on - alone.'')) = js ''Maven rode on - alone.''
   \<and> escapeHtml (JString (js ''Maven rode on - alone.'')) = js ''Maven rode on - alone.''"
proof -
  have h: "\<not> adjacent_hyphens (js ''Maven rode on - alone.'')"
    "DQUOTE \<notin> set (js ''Maven rode on - alone.'')"
    "SQUOTE \<notin> set (js ''Maven rode on - alone.'')"
    "AMP \<notin> set (js ''Maven rode on - alone.'')"
    "LESS \<notin> set (js ''Maven rode on - alone.'')"
    "GREATER \<notin> set (js ''Maven rode on - alone.'')"
    by (simp_all add: js_def)
  from plain_text_unchanged [OF h] h show ?thesis by blast
qed

section \<open>Whitespace inside a marker\<close>

text \<open>
  C10: for digits \<open>n\<close> and any run \<open>w\<close> of whitespace, the token \<open>[FN\<close>\<open>w\<close>\<open>n\<close>\<open>]\<close> is
  treated as \<open>[FN\<close>\<open>n\<close>\<open>]\<close> is: a line that starts with it is the same footnote
  definition; as an inline marker of the body it is replaced by the rendering of
  footnote \<open>n\<close>, the text around it being processed on its own; and the preview of a
  caption is the same with either token.
\<close>

theorem marker_whitespace_tolerated:
  assumes "list_all is_space w" and "n \<noteq> []" and "list_all is_digit n"
  shows "fnMatch (marker_token w n @ rest) = fnMatch (marker_token [] n @ rest)
    \<and> replace_markers (render_marker fs) (pre @ marker_token w n @ post)
        = replace_markers (render_marker fs) pre @ render_marker fs n
          @ replace_markers (render_marker fs) post
    \<and> replace_markers (render_marker fs) (pre @ marker_token w n @ post)
        = replace_markers (render_marker fs) (pre @ marker_token [] n @ post)
    \<and> getPreview (JString (pre @ marker_token w n @ post))
        = getPreview (JString (pre @ marker_token [] n @ post))"
proof (intro conjI)
  have m: "match_marker (marker_token v n @ rest) = Some (n, rest)" if "list_all is_space v" for v
    using match_marker_token [OF that assms(2,3), of rest] by (simp add: marker_token_def)
  have "match_marker (marker_token w n @ rest) = match_marker (marker_token [] n @ rest)"
    using m [of w] m [of "[]"] assms(1) by simp
  then show "fnMatch (marker_token w n @ rest) = fnMatch (marker_token [] n @ rest)"
    by (simp add: fnMatch_def)
  have r: "replace_markers f (pre @ marker_token v n @ post)
           = replace_markers f pre @ f n @ replace_markers f post"
    if "list_all is_space v" for v f
    using replace_markers_token [OF that assms(2,3), of f pre post]
    by (simp add: marker_token_def)
  show "replace_markers (render_marker fs) (pre @ marker_token w n @ post)
        = replace_markers (render_marker fs) pre @ render_marker fs n
          @ replace_markers (render_marker fs) post"
    using r [of w] assms(1) by simp
  show "replace_markers (render_marker fs) (pre @ marker_token w n @ post)
        = replace_markers (render_marker fs) (pre @ marker_token [] n @ post)"
    using r [of w] r [of "[]"] assms(1) by simp
  have "replace_markers (\<lambda>num. []) (pre @ marker_token w n @ post)
        = replace_markers (\<lambda>num. []) (pre @ marker_token [] n @ post)"
    using r [of w] r [of "[]"] assms(1) by simp
  moreover have "pre @ marker_token v n @ post \<noteq> []" for v
    by (simp add: marker_token_def js_def)
  ultimately show "getPreview (JString (pre @ marker_token w n @ post))
        = getPreview (JString (pre @ marker_token [] n @ post))"
    by (simp add: getPreview_def getPreview_string_def)
qed

theorem marker_whitespace_tolerated_witness:
  "list_all is_space [SPACE] \<and> js ''12'' \<noteq> [] \<and> list_all is_digit (js ''12'')
   \<and> fnMatch (marker_token [SPACE] (js ''12'') @ js '' A note.'') = Some (js ''12'', js ''A note.'')
   \<and> replace_markers (\<lambda>num. js ''#'' @ num) (js ''See '' @ marker_token [SPACE] (js ''12'') @ js ''.'')
       = js ''See #12.''
   \<and> getPreview (JString (js ''See '' @ marker_token [SPACE] (js ''12'') @ js '' here''))
       = Inr (js ''See  here'')"
proof -
  have h: "list_all is_space [SPACE]" "js ''12'' \<noteq> []" "list_all is_digit (js ''12'')"
    by (simp_all add: js_def is_space_def is_digit_def)
  have e1: "fnMatch (marker_token [] (js ''12'') @ js '' A note.'') = Some (js ''12'', js ''A note.'')"
    by code_simp
  have e2: "replace_markers (\<lambda>num. js ''#'' @ num) (js ''See '' @ marker_token [SPACE] (js ''12'') @ js ''.'')
       = js ''See #12.''"
    by code_simp
  have e3: "getPreview (JString (js ''See '' @ marker_token [] (js ''12'') @ js '' here''))
       = Inr (js ''See  here'')"
    by code_simp
  from marker_whitespace_tolerated [OF h, of "js '' A note.''" "[]" "js ''See ''" "js '' here''"]
    h e1 e2 e3
  show ?thesis by simp
qed

end
